theory Spec2Isabelle
  imports Main
begin

section \<open>Values and records of the entity store\<close>

text \<open>
  The debug adapter is JavaScript. A property of a record holds a JavaScript value; the
  adapter only tests such values for truthiness (\<^verbatim>\<open>if (record.get('isNew'))\<close>) and
  for strict equality with \<^verbatim>\<open>false\<close>.
\<close>

datatype val = Undefined | Null | Bool bool | Num int | Str string

fun truthy :: "val \<Rightarrow> bool" where
  "truthy Undefined = False"
| "truthy Null = False"
| "truthy (Bool b) = b"
| "truthy (Num n) = (n \<noteq> 0)"
| "truthy (Str s) = (s \<noteq> [])"

text \<open>
  A JavaScript object used as a dictionary (\<^verbatim>\<open>columnValues[key] = value\<close>): the keys in
  insertion order; assigning to a key that is present replaces its value in place.
\<close>

type_synonym obj = "(string \<times> val) list"

fun obj_set :: "string \<Rightarrow> val \<Rightarrow> obj \<Rightarrow> obj" where
  "obj_set k v [] = [(k, v)]"
| "obj_set k v ((k', v') # kvs) =
     (if k = k' then (k, v) # kvs else (k', v') # obj_set k v kvs)"

text \<open>
  A record of the store (an instance of \<^verbatim>\<open>Ep.Model\<close>): the attribute names its class
  declares, in declaration order, and its properties, read with \<^verbatim>\<open>Ember.get\<close> (a
  property that is not set reads as \<^verbatim>\<open>undefined\<close>).
\<close>

record model =
  attributes :: "string list"
  props :: obj

definition get :: "model \<Rightarrow> string \<Rightarrow> val" where
  "get record key = (case map_of (props record) key of None \<Rightarrow> Undefined | Some v \<Rightarrow> v)"

text \<open>
  Modelled from the spec: \<^verbatim>\<open>record.eachAttribute(callback)\<close> is a method of
  \<^verbatim>\<open>Ep.Model\<close>, which is not among the sources. The spec gives it as
  \<^verbatim>\<open>declaredFields(entityType)\<close>, an ordered sequence of field names: the callback
  runs for the declared attributes in schema order. Whether the \<^verbatim>\<open>return false\<close> of a
  callback ends only that call or the whole loop makes no difference to the functions
  below: their callbacks do nothing else once they have returned \<^verbatim>\<open>false\<close>.
\<close>

definition eachAttribute :: "model \<Rightarrow> (string \<Rightarrow> 'a \<Rightarrow> 'a) \<Rightarrow> 'a \<Rightarrow> 'a" where
  "eachAttribute record callback acc = fold callback (attributes record) acc"

section \<open>The record projector (lib/debug/debug\_adapter.js)\<close>

text \<open>
  \<^verbatim>\<open>getRecordColumnValues\<close>: \<^verbatim>\<open>count\<close> starts at 0 and the callback tests
  \<^verbatim>\<open>count++ > self.attributeLimit\<close>, the value of \<^verbatim>\<open>count\<close> before the increment.
  \<^verbatim>\<open>attributeLimit\<close> is a property of the adapter (3 in \<^verbatim>\<open>Ember.DataAdapter\<close>), here a
  parameter.
\<close>

definition columnStep :: "int \<Rightarrow> model \<Rightarrow> string \<Rightarrow> int \<times> obj \<Rightarrow> int \<times> obj" where
  "columnStep attributeLimit record key st =
     (case st of (count, columnValues) \<Rightarrow>
        if count > attributeLimit then (count + 1, columnValues)
        else (count + 1, obj_set key (get record key) columnValues))"

definition getRecordColumnValues :: "int \<Rightarrow> model \<Rightarrow> obj" where
  "getRecordColumnValues attributeLimit record =
     snd (eachAttribute record (columnStep attributeLimit record)
            (0, [(''id'', get record ''id'')]))"

text \<open>
  \<^verbatim>\<open>getRecordKeywords\<close>: first the keys are collected, \<^verbatim>\<open>'id'\<close> and then every
  attribute (\<^verbatim>\<open>keys.push(key)\<close>); then the value of every key is pushed onto
  \<^verbatim>\<open>keywords\<close>.
\<close>

definition push :: "'a \<Rightarrow> 'a list \<Rightarrow> 'a list" where
  "push x xs = xs @ [x]"

definition getRecordKeywords :: "model \<Rightarrow> val list" where
  "getRecordKeywords record =
     (let keys = eachAttribute record push [''id'']
      in fold (\<lambda>key keywords. push (get record key) keywords) keys [])"

record filters =
  isPromise :: val
  isProxy :: val
  isNew :: val
  isDeleted :: val
  isLoaded :: val

definition getRecordFilterValues :: "model \<Rightarrow> filters" where
  "getRecordFilterValues record =
     \<lparr> isPromise = get record ''isPromise'',
       isProxy = get record ''isProxy'',
       isNew = get record ''isNew'',
       isDeleted = get record ''isDeleted'',
       isLoaded = get record ''isLoaded'' \<rparr>"

text \<open>\<^verbatim>\<open>getRecordColor\<close> as lib/debug/debug\_adapter.js has it.\<close>

definition getRecordColor :: "model \<Rightarrow> string" where
  "getRecordColor record =
     (if truthy (get record ''isNew'') then ''green''
      else if truthy (get record ''isProxy'') then ''blue''
      else if truthy (get record ''isPromise'') then ''red''
      else ''black'')"

text \<open>
  \<^verbatim>\<open>getRecordColor\<close> of the revision of the adapter that logs its calls (the one with
  \<^verbatim>\<open>_logThis\<close>): it returns early when \<^verbatim>\<open>isLoaded\<close> is strictly \<^verbatim>\<open>false\<close>, and it
  tests \<^verbatim>\<open>isNew\<close> a second time after \<^verbatim>\<open>isProxy\<close>.
\<close>

definition getRecordColor_logged :: "model \<Rightarrow> string" where
  "getRecordColor_logged record =
     (if get record ''isLoaded'' = Bool False then ''grey''
      else if truthy (get record ''isNew'') then ''green''
      else if truthy (get record ''isProxy'') then ''black''
      else if truthy (get record ''isNew'') then ''blue''
      else if truthy (get record ''isDeleted'') then ''red''
      else ''black'')"


section \<open>The adapter's state\<close>

text \<open>
  \<^verbatim>\<open>wrapRecord\<close> (\<^verbatim>\<open>Ember.DataAdapter\<close>) builds the object that is sent to the consumer.
\<close>

record wrapped =
  object :: nat
  columnValues :: obj
  searchKeywords :: "val list"
  filterValues :: filters
  color :: string

text \<open>
  Functions are values with an identity. The functions of the consumer are named by
  numbers; \<^verbatim>\<open>RecordUpdated f\<close> is the closure
  \<^verbatim>\<open>function(updatedRecord) { recordsUpdated([updatedRecord]); }\<close> of \<^verbatim>\<open>watchRecords\<close>
  around the consumer's function \<^verbatim>\<open>f\<close>. What the consumer sees of the adapter is the
  sequence of calls of its functions, each with its arguments.
\<close>

datatype callback = Fn nat | RecordUpdated nat

datatype arg = ArgRecord wrapped | ArgRecords "wrapped list" | ArgRemoved nat nat

type_synonym event = "nat \<times> arg"

text \<open>
  \<^verbatim>\<open>Handler h record recordUpdated\<close> is the closure
  \<^verbatim>\<open>function() { recordUpdated(self.wrapRecord(record)); }\<close> that \<^verbatim>\<open>observeRecord\<close>
  creates for one key; \<^verbatim>\<open>h\<close> is its identity. \<^verbatim>\<open>RemoveObserver record key handler\<close> is
  the closure \<^verbatim>\<open>function() { Ember.removeObserver(record, key, handler); }\<close>.
\<close>

datatype handler = Handler nat nat callback

datatype remover = RemoveObserver nat string handler

text \<open>
  \<^verbatim>\<open>ContentDidChange w recordsAdded recordsUpdated recordsRemoved\<close> is the array observer
  of the activation \<^verbatim>\<open>w\<close> of \<^verbatim>\<open>watchRecords\<close>, with the consumer's functions it closes
  over. There are two kinds of release functions: the \<^verbatim>\<open>release\<close> that
  \<^verbatim>\<open>observeRecord\<close> returns, closed over its array \<^verbatim>\<open>releaseMethods\<close> (which is
  complete when \<^verbatim>\<open>observeRecord\<close> returns), and the \<^verbatim>\<open>release\<close> of the activation
  \<^verbatim>\<open>w\<close> of \<^verbatim>\<open>watchRecords\<close>, closed over \<^verbatim>\<open>records\<close>, \<^verbatim>\<open>observer\<close> and the array
  \<^verbatim>\<open>releaseMethods\<close> of that activation, which \<^verbatim>\<open>contentDidChange\<close> extends later and
  which therefore lives in the state. The array of an activation holds release functions
  of the first kind, the adapter's \<^verbatim>\<open>releaseMethods\<close> those of the second kind.
\<close>

datatype arrayObserver = ContentDidChange nat nat nat nat

datatype recordRelease = ReleaseRecord "remover list"

datatype recordsRelease = ReleaseRecords nat nat arrayObserver

datatype outcome = Values nat | Failure val

datatype error = TypeError

text \<open>
  The state: the adapter's own properties (\<^verbatim>\<open>attributeLimit\<close>, \<^verbatim>\<open>releaseMethods\<close>), the
  records and record arrays of the store by reference, the observers that Ember holds for
  records (\<^verbatim>\<open>Ember.addObserver\<close>) and for arrays (\<^verbatim>\<open>addArrayObserver\<close>), the local
  arrays \<^verbatim>\<open>releaseMethods\<close> of the activations of \<^verbatim>\<open>watchRecords\<close>, the promises that
  \<^verbatim>\<open>getRecords\<close> waits for, each with the type queried and the local variable
  \<^verbatim>\<open>records\<close> of that activation, and the calls delivered to the consumer. Output to the
  console is not part of the state.
\<close>

record adapter =
  attributeLimit :: int
  nextId :: nat
  store :: "nat \<Rightarrow> model"
  arrays :: "nat \<Rightarrow> nat list"
  observers :: "(nat \<times> string \<times> handler) list"
  arrayObservers :: "(nat \<times> arrayObserver) list"
  locals :: "nat \<Rightarrow> recordRelease list"
  releaseMethods :: "recordsRelease list"
  pending :: "(nat \<times> nat) list"
  cells :: "nat \<Rightarrow> nat"
  delivered :: "event list"

definition wrapRecord :: "adapter \<Rightarrow> nat \<Rightarrow> wrapped" where
  "wrapRecord s record =
     \<lparr> object = record,
       columnValues = getRecordColumnValues (attributeLimit s) (store s record),
       searchKeywords = getRecordKeywords (store s record),
       filterValues = getRecordFilterValues (store s record),
       color = getRecordColor (store s record) \<rparr>"

text \<open>Calling a callback with a wrapped record: the call that reaches the consumer.\<close>

fun delivery :: "callback \<Rightarrow> wrapped \<Rightarrow> event" where
  "delivery (Fn f) w = (f, ArgRecord w)"
| "delivery (RecordUpdated recordsUpdated) w = (recordsUpdated, ArgRecords [w])"

definition call :: "callback \<Rightarrow> wrapped \<Rightarrow> adapter \<Rightarrow> adapter" where
  "call f w s = s\<lparr>delivered := push (delivery f w) (delivered s)\<rparr>"

fun fire :: "handler \<Rightarrow> adapter \<Rightarrow> adapter" where
  "fire (Handler h record recordUpdated) s = call recordUpdated (wrapRecord s record) s"

section \<open>JavaScript arrays and Ember observers\<close>

text \<open>
  \<^verbatim>\<open>Array.prototype.forEach\<close>, which an array made by \<^verbatim>\<open>Ember.A()\<close> uses: the length is
  read once, before the first call; then the index \<^verbatim>\<open>k\<close> runs from 0 to that length,
  and the callback is called on the element that is at index \<^verbatim>\<open>k\<close> of the array at that
  moment, if the array still has an index \<^verbatim>\<open>k\<close>. The array is read from the state, so a
  callback that changes it changes what the later steps see.
\<close>

fun forEachFrom :: "('s \<Rightarrow> 'a list) \<Rightarrow> ('a \<Rightarrow> 's \<Rightarrow> 's) \<Rightarrow> nat \<Rightarrow> nat \<Rightarrow> 's \<Rightarrow> 's" where
  "forEachFrom array callback 0 k s = s"
| "forEachFrom array callback (Suc n) k s =
     forEachFrom array callback n (Suc k)
       (if k < length (array s) then callback (array s ! k) s else s)"

definition forEach :: "('s \<Rightarrow> 'a list) \<Rightarrow> ('a \<Rightarrow> 's \<Rightarrow> 's) \<Rightarrow> 's \<Rightarrow> 's" where
  "forEach array callback s = forEachFrom array callback (length (array s)) 0 s"

text \<open>
  The observer functions are Ember's. \<^verbatim>\<open>Ember.addObserver\<close> registers a handler for a
  key of a record, once; \<^verbatim>\<open>Ember.removeObserver\<close> removes that registration and does
  nothing when there is none. \<^verbatim>\<open>addArrayObserver\<close> and \<^verbatim>\<open>removeArrayObserver\<close> do the
  same for the \<^verbatim>\<open>didChange\<close> function of an observer of an array. On an array,
  \<^verbatim>\<open>removeObject\<close> removes every occurrence of an object (\<^verbatim>\<open>removeAll\<close>) and
  \<^verbatim>\<open>pushObject\<close> appends (\<^verbatim>\<open>push\<close>).
\<close>

definition addObserver :: "nat \<Rightarrow> string \<Rightarrow> handler \<Rightarrow> adapter \<Rightarrow> adapter" where
  "addObserver record key handler s =
     (if (record, key, handler) \<in> set (observers s) then s
      else s\<lparr>observers := push (record, key, handler) (observers s)\<rparr>)"

definition removeObserver :: "nat \<Rightarrow> string \<Rightarrow> handler \<Rightarrow> adapter \<Rightarrow> adapter" where
  "removeObserver record key handler s =
     s\<lparr>observers := removeAll (record, key, handler) (observers s)\<rparr>"

definition addArrayObserver :: "nat \<Rightarrow> arrayObserver \<Rightarrow> adapter \<Rightarrow> adapter" where
  "addArrayObserver array observer s =
     (if (array, observer) \<in> set (arrayObservers s) then s
      else s\<lparr>arrayObservers := push (array, observer) (arrayObservers s)\<rparr>)"

definition removeArrayObserver :: "nat \<Rightarrow> arrayObserver \<Rightarrow> adapter \<Rightarrow> adapter" where
  "removeArrayObserver array observer s =
     s\<lparr>arrayObservers := removeAll (array, observer) (arrayObservers s)\<rparr>"

text \<open>
  \<^verbatim>\<open>Ember.set\<close>, by which the store changes a record: setting a property to a value that
  differs from the present one stores the value and then calls every handler that observes
  this key of this record.
\<close>

definition notify :: "nat \<Rightarrow> string \<Rightarrow> adapter \<Rightarrow> adapter" where
  "notify record key s =
     fold (\<lambda>ob. fire (snd (snd ob)))
       (filter (\<lambda>ob. fst ob = record \<and> fst (snd ob) = key) (observers s)) s"

definition setProperty :: "nat \<Rightarrow> string \<Rightarrow> val \<Rightarrow> adapter \<Rightarrow> adapter" where
  "setProperty record key v s =
     (if get (store s record) key = v then s
      else notify record key
             (s\<lparr>store := (store s)(record := (store s record)
                   \<lparr>props := obj_set key v (props (store s record))\<rparr>)\<rparr>))"

section \<open>The record watcher (lib/debug/debug\_adapter.js)\<close>

text \<open>
  \<^verbatim>\<open>observeRecord\<close>: the keys to observe are six fixed keys followed by the attributes;
  for every key a new handler is registered and a function that removes it is pushed onto
  \<^verbatim>\<open>releaseMethods\<close>. The function returned, \<^verbatim>\<open>release\<close>, calls every element of
  \<^verbatim>\<open>releaseMethods\<close>; it is \<^verbatim>\<open>ReleaseRecord\<close> of that array.
\<close>

definition keysToObserve :: "model \<Rightarrow> string list" where
  "keysToObserve record =
     eachAttribute record push
       [''id'', ''isNew'', ''isProxy'', ''isPromise'', ''isLoaded'', ''isDeleted'']"

definition observeKey ::
  "nat \<Rightarrow> callback \<Rightarrow> string \<Rightarrow> adapter \<times> remover list \<Rightarrow> adapter \<times> remover list" where
  "observeKey record recordUpdated key st =
     (case st of (s, rms) \<Rightarrow>
        let handler = Handler (nextId s) record recordUpdated
        in (addObserver record key handler (s\<lparr>nextId := Suc (nextId s)\<rparr>),
            push (RemoveObserver record key handler) rms))"

definition observeRecord :: "nat \<Rightarrow> callback \<Rightarrow> adapter \<Rightarrow> recordRelease \<times> adapter" where
  "observeRecord record recordUpdated s =
     (case fold (observeKey record recordUpdated) (keysToObserve (store s record)) (s, []) of
        (s', rms) \<Rightarrow> (ReleaseRecord rms, s'))"

fun runRemover :: "remover \<Rightarrow> adapter \<Rightarrow> adapter" where
  "runRemover (RemoveObserver record key handler) s = removeObserver record key handler s"

fun releaseRecord :: "recordRelease \<Rightarrow> adapter \<Rightarrow> adapter" where
  "releaseRecord (ReleaseRecord rms) s = forEach (\<lambda>_. rms) runRemover s"

section \<open>Watching the records of a type (Ember.DataAdapter)\<close>

text \<open>
  The \<^verbatim>\<open>release\<close> of an activation of \<^verbatim>\<open>watchRecords\<close> calls every element of the
  activation's \<^verbatim>\<open>releaseMethods\<close>, removes the array observer and removes itself from the
  adapter's \<^verbatim>\<open>releaseMethods\<close>.
\<close>

fun releaseRecords :: "recordsRelease \<Rightarrow> adapter \<Rightarrow> adapter" where
  "releaseRecords (ReleaseRecords w records observer) s =
     (let s1 = forEach (\<lambda>s. locals s w) releaseRecord s;
          s2 = removeArrayObserver records observer s1
      in s2\<lparr>releaseMethods :=
              removeAll (ReleaseRecords w records observer) (releaseMethods s2)\<rparr>)"

text \<open>
  \<^verbatim>\<open>willDestroy\<close> of \<^verbatim>\<open>Ember.DataAdapter\<close>, the class that the adapter extends: the
  revision that logs its calls shows its body where it leaves the method to the base class,
  \<^verbatim>\<open>this._super(); this.releaseMethods.forEach(function(fn) { fn(); })\<close>. Its own
  \<^verbatim>\<open>_super\<close> is the \<^verbatim>\<open>willDestroy\<close> of \<^verbatim>\<open>Ember.Object\<close>, which does nothing; the loop
  runs over the adapter's own array, which the functions called shrink. An adapter that does
  not define \<^verbatim>\<open>willDestroy\<close> is destroyed by this method.
\<close>

definition willDestroy_inherited :: "adapter \<Rightarrow> adapter" where
  "willDestroy_inherited s = forEach releaseMethods releaseRecords s"

text \<open>
  \<^verbatim>\<open>willDestroy\<close> of the revision that defines it:
  \<^verbatim>\<open>this._super(); this.releaseMethods.forEach(function(fn) { fn(); })\<close>. The class
  extends \<^verbatim>\<open>Ember.DataAdapter\<close>, so \<^verbatim>\<open>this._super()\<close> is the method above, on the same
  array, and the loop of the class runs after it: two passes over \<^verbatim>\<open>releaseMethods\<close>.
\<close>

definition willDestroy :: "adapter \<Rightarrow> adapter" where
  "willDestroy s = forEach releaseMethods releaseRecords (willDestroy_inherited s)"

text \<open>
  The same two loops with a callback that also notes which function it was called on: the
  sequence of the release functions that \<^verbatim>\<open>willDestroy\<close> calls, those of
  \<^verbatim>\<open>this._super()\<close> first.
\<close>

definition noting :: "('a \<Rightarrow> 's \<Rightarrow> 's) \<Rightarrow> 'a \<Rightarrow> 's \<times> 'a list \<Rightarrow> 's \<times> 'a list" where
  "noting callback x st = (callback x (fst st), push x (snd st))"

definition willDestroy_calls :: "adapter \<Rightarrow> recordsRelease list" where
  "willDestroy_calls s =
     snd (forEach (\<lambda>st. releaseMethods (fst st)) (noting releaseRecords)
            (forEach (\<lambda>st. releaseMethods (fst st)) (noting releaseRecords) (s, [])))"

text \<open>
  \<^verbatim>\<open>watchRecords\<close> after its call of \<^verbatim>\<open>getRecords\<close>, on the array \<^verbatim>\<open>records\<close> that
  \<^verbatim>\<open>getRecords\<close> returned. \<^verbatim>\<open>w\<close> is the identity of the activation.
\<close>

definition watchRecord ::
  "nat \<Rightarrow> callback \<Rightarrow> nat \<Rightarrow> adapter \<times> wrapped list \<Rightarrow> adapter \<times> wrapped list" where
  "watchRecord w recordUpdated record st =
     (case st of (s, recordsToSend) \<Rightarrow>
        (case observeRecord record recordUpdated s of
           (release, s1) \<Rightarrow>
             let s2 = s1\<lparr>locals := (locals s1)(w := push release (locals s1 w))\<rparr>
             in (s2, push (wrapRecord s2 record) recordsToSend)))"

definition watchRecordsOn ::
  "nat \<Rightarrow> nat \<Rightarrow> nat \<Rightarrow> nat \<Rightarrow> adapter \<Rightarrow> recordsRelease \<times> adapter" where
  "watchRecordsOn records recordsAdded recordsUpdated recordsRemoved s =
     (let w = nextId s;
          s0 = s\<lparr>nextId := Suc w, locals := (locals s)(w := [])\<rparr>;
          recordUpdated = RecordUpdated recordsUpdated;
          (s1, recordsToSend) = fold (watchRecord w recordUpdated) (arrays s0 records) (s0, []);
          observer = ContentDidChange w recordsAdded recordsUpdated recordsRemoved;
          s2 = addArrayObserver records observer s1;
          release = ReleaseRecords w records observer;
          s3 = s2\<lparr>delivered := push (recordsAdded, ArgRecords recordsToSend) (delivered s2)\<rparr>
      in (release, s3\<lparr>releaseMethods := push release (releaseMethods s3)\<rparr>))"

text \<open>
  \<^verbatim>\<open>contentDidChange\<close>, the \<^verbatim>\<open>didChange\<close> of the array observer. \<^verbatim>\<open>objectAt\<close> beyond
  the end of the array is \<^verbatim>\<open>undefined\<close>, and wrapping \<^verbatim>\<open>undefined\<close> raises.
\<close>

fun added :: "arrayObserver \<Rightarrow> nat \<Rightarrow> nat \<Rightarrow> nat \<Rightarrow> adapter \<Rightarrow> error + adapter" where
  "added observer array i 0 s = Inr s"
| "added (ContentDidChange w recordsAdded recordsUpdated recordsRemoved) array i (Suc n) s =
     (if i < length (arrays s array) then
        let record = arrays s array ! i;
            wrapped = wrapRecord s record;
            (release, s1) = observeRecord record (RecordUpdated recordsUpdated) s;
            s2 = s1\<lparr>locals := (locals s1)(w := push release (locals s1 w))\<rparr>;
            s3 = s2\<lparr>delivered := push (recordsAdded, ArgRecords [wrapped]) (delivered s2)\<rparr>
        in added (ContentDidChange w recordsAdded recordsUpdated recordsRemoved) array (Suc i) n s3
      else Inl TypeError)"

fun contentDidChange ::
  "arrayObserver \<Rightarrow> nat \<Rightarrow> nat \<Rightarrow> nat \<Rightarrow> nat \<Rightarrow> adapter \<Rightarrow> error + adapter" where
  "contentDidChange (ContentDidChange w recordsAdded recordsUpdated recordsRemoved)
       array idx removedCount addedCount s =
     (case added (ContentDidChange w recordsAdded recordsUpdated recordsRemoved)
             array idx addedCount s of
        Inl e \<Rightarrow> Inl e
      | Inr s1 \<Rightarrow>
          if removedCount \<noteq> 0
          then Inr (s1\<lparr>delivered := push (recordsRemoved, ArgRemoved idx removedCount) (delivered s1)\<rparr>)
          else Inr s1)"

section \<open>Fetching the records of a type\<close>

text \<open>
  \<^verbatim>\<open>getRecords\<close> as lib/debug/debug\_adapter.js has it returns what the session's
  \<^verbatim>\<open>query\<close> returns, as it is. The session is not among the sources; its \<^verbatim>\<open>query\<close> is a
  parameter here.
\<close>

definition getRecords :: "(nat \<Rightarrow> 'a) \<Rightarrow> nat \<Rightarrow> 'a" where
  "getRecords query type = query type"

text \<open>
  \<^verbatim>\<open>getRecords\<close> of the revision that logs its calls: the local variable \<^verbatim>\<open>records\<close>
  starts as a new empty array, the store's \<^verbatim>\<open>query\<close> gives a promise, two functions
  are attached to the promise with \<^verbatim>\<open>then\<close>, and the present value of \<^verbatim>\<open>records\<close> is
  returned. The functions attached run later, when the promise is settled.
\<close>

definition getRecords_logged :: "nat \<Rightarrow> adapter \<Rightarrow> nat \<times> adapter" where
  "getRecords_logged type s =
     (let records = nextId s;
          recordsPromised = Suc (nextId s)
      in (records,
          s\<lparr>nextId := Suc (Suc (nextId s)),
            arrays := (arrays s)(records := []),
            pending := push (recordsPromised, type) (pending s),
            cells := (cells s)(recordsPromised := records)\<rparr>))"

text \<open>
  Settling a promise runs the function that \<^verbatim>\<open>getRecords\<close> attached for the outcome, if
  \<^verbatim>\<open>getRecords\<close> is waiting for this promise: on success \<^verbatim>\<open>records = values\<close>, on
  failure \<^verbatim>\<open>records = Ember.A([])\<close>, both assignments to the local variable. Both
  functions return normally, with \<^verbatim>\<open>undefined\<close>; the first component is how the function
  that ran ended.
\<close>

definition settle :: "nat \<Rightarrow> outcome \<Rightarrow> adapter \<Rightarrow> (error + val) \<times> adapter" where
  "settle promise out s =
     (if promise \<notin> fst ` set (pending s) then (Inr Undefined, s)
      else
        let s1 = s\<lparr>pending := filter (\<lambda>q. fst q \<noteq> promise) (pending s)\<rparr>
        in (case out of
              Values values \<Rightarrow> (Inr Undefined, s1\<lparr>cells := (cells s1)(promise := values)\<rparr>)
            | Failure err \<Rightarrow>
                (Inr Undefined,
                 s1\<lparr>nextId := Suc (nextId s1),
                    arrays := (arrays s1)(nextId s1 := []),
                    cells := (cells s1)(promise := nextId s1)\<rparr>)))"

text \<open>
  \<^verbatim>\<open>watchRecords\<close> of \<^verbatim>\<open>Ember.DataAdapter\<close>, which the adapter does not override, with
  the \<^verbatim>\<open>getRecords\<close> that waits for the promise: \<^verbatim>\<open>records = this.getRecords(type)\<close>
  and then the rest of the function on that array.
\<close>

definition watchRecords ::
  "nat \<Rightarrow> nat \<Rightarrow> nat \<Rightarrow> nat \<Rightarrow> adapter \<Rightarrow> recordsRelease \<times> adapter" where
  "watchRecords type recordsAdded recordsUpdated recordsRemoved s =
     (case getRecords_logged type s of
        (records, s1) \<Rightarrow> watchRecordsOn records recordsAdded recordsUpdated recordsRemoved s1)"

section \<open>The adapter over time\<close>

text \<open>
  \<^verbatim>\<open>replace\<close> is Ember's primitive for changing an array: \<^verbatim>\<open>amt\<close> elements from index
  \<^verbatim>\<open>idx\<close> on are replaced by \<^verbatim>\<open>objects\<close>, and then the \<^verbatim>\<open>didChange\<close> of every observer
  of this array is called with the index, the number of elements removed and the number
  added.
\<close>

fun notifyArray ::
  "(nat \<times> arrayObserver) list \<Rightarrow> nat \<Rightarrow> nat \<Rightarrow> nat \<Rightarrow> nat \<Rightarrow> adapter \<Rightarrow> error + adapter" where
  "notifyArray [] array idx removedCount addedCount s = Inr s"
| "notifyArray ((a, observer) # rest) array idx removedCount addedCount s =
     (if a = array then
        (case contentDidChange observer array idx removedCount addedCount s of
           Inl e \<Rightarrow> Inl e
         | Inr s1 \<Rightarrow> notifyArray rest array idx removedCount addedCount s1)
      else notifyArray rest array idx removedCount addedCount s)"

definition replace :: "nat \<Rightarrow> nat \<Rightarrow> nat \<Rightarrow> nat list \<Rightarrow> adapter \<Rightarrow> error + adapter" where
  "replace array idx amt objects s =
     (let s1 = s\<lparr>arrays := (arrays s)(array :=
                  take idx (arrays s array) @ objects @ drop (idx + amt) (arrays s array))\<rparr>
      in notifyArray (arrayObservers s1) array idx amt (length objects) s1)"

text \<open>
  What can happen after a call of the adapter: the store sets a property of a record or
  changes an array, a promise is settled, the consumer calls a release function it holds,
  the adapter is destroyed, the consumer watches the records of a type. A run takes such
  events in order and stops at the first one that raises. The adapter of a run is the
  revision that logs its calls, whose \<^verbatim>\<open>getRecords\<close> attaches functions to a promise; it
  does not define \<^verbatim>\<open>willDestroy\<close> and is destroyed by the method it inherits.
\<close>

datatype action =
    SetProperty nat string val
  | Replace nat nat nat "nat list"
  | Settle nat outcome
  | Release recordsRelease
  | WillDestroy
  | WatchRecords nat nat nat nat

fun step :: "action \<Rightarrow> adapter \<Rightarrow> error + adapter" where
  "step (SetProperty record key v) s = Inr (setProperty record key v s)"
| "step (Replace array idx amt objects) s = replace array idx amt objects s"
| "step (Settle promise out) s = Inr (snd (settle promise out s))"
| "step (Release release) s = Inr (releaseRecords release s)"
| "step WillDestroy s = Inr (willDestroy_inherited s)"
| "step (WatchRecords type recordsAdded recordsUpdated recordsRemoved) s =
     Inr (snd (watchRecords type recordsAdded recordsUpdated recordsRemoved s))"

fun run :: "action list \<Rightarrow> adapter \<Rightarrow> error + adapter" where
  "run [] s = Inr s"
| "run (a # as) s = (case step a s of Inl e \<Rightarrow> Inl e | Inr s1 \<Rightarrow> run as s1)"

section \<open>Notions used in the statements\<close>

text \<open>
  A closure is new when it is created: the identities of the handlers registered so far
  are below \<^verbatim>\<open>nextId\<close>.
\<close>

fun handlerId :: "handler \<Rightarrow> nat" where
  "handlerId (Handler h record recordUpdated) = h"

definition handlersFresh :: "adapter \<Rightarrow> bool" where
  "handlersFresh s = list_all (\<lambda>ob. handlerId (snd (snd ob)) < nextId s) (observers s)"

text \<open>
  The registrations that one call of \<^verbatim>\<open>observeRecord\<close> for \<^verbatim>\<open>record\<close> makes when it
  starts with the identity \<^verbatim>\<open>n\<close>: one for each key, each with a handler of its own.
\<close>

fun attached :: "nat \<Rightarrow> callback \<Rightarrow> nat \<Rightarrow> string list \<Rightarrow> (nat \<times> string \<times> handler) list" where
  "attached record recordUpdated n [] = []"
| "attached record recordUpdated n (key # keys) =
     (record, key, Handler n record recordUpdated) # attached record recordUpdated (Suc n) keys"

text \<open>The functions that remove these registrations, as \<^verbatim>\<open>observeRecord\<close> pushes them.\<close>

fun removers :: "(nat \<times> string \<times> handler) list \<Rightarrow> remover list" where
  "removers [] = []"
| "removers ((r, k, h) # obs) = RemoveObserver r k h # removers obs"

text \<open>The call that reaches the consumer when a handler runs in the state \<^verbatim>\<open>s\<close>.\<close>

fun fired :: "adapter \<Rightarrow> handler \<Rightarrow> event" where
  "fired s (Handler h r cb) = delivery cb (wrapRecord s r)"

text \<open>
  The scenario of a release before the resolution: the consumer calls \<^verbatim>\<open>watchRecords\<close>,
  calls the release function it got back, and then the promise is settled.
\<close>

definition releasedThenSettled ::
  "nat \<Rightarrow> nat \<Rightarrow> nat \<Rightarrow> nat \<Rightarrow> nat \<Rightarrow> outcome \<Rightarrow> adapter \<Rightarrow> adapter" where
  "releasedThenSettled type recordsAdded recordsUpdated recordsRemoved promise out s =
     (case watchRecords type recordsAdded recordsUpdated recordsRemoved s of
        (release, s1) \<Rightarrow> snd (settle promise out (releaseRecords release s1)))"

text \<open>
  A function \<^verbatim>\<open>f\<close> of the consumer is named by a callback, by a handler and by an array
  observer that would call it; an event subscribes with \<^verbatim>\<open>f\<close> when it is a call of
  \<^verbatim>\<open>watchRecords\<close> that passes \<^verbatim>\<open>f\<close>, and it touches the arrays \<^verbatim>\<open>dead\<close> when it
  changes one of them. \<^verbatim>\<open>f\<close> is unused in a state, but for the arrays \<^verbatim>\<open>dead\<close>, when no
  handler names it and an array observer that names it observes one of the arrays
  \<^verbatim>\<open>dead\<close>. \<^verbatim>\<open>callsOf f s\<close> are the calls of \<^verbatim>\<open>f\<close> delivered so far.
\<close>

fun names :: "nat \<Rightarrow> callback \<Rightarrow> bool" where
  "names f (Fn g) = (f = g)"
| "names f (RecordUpdated g) = (f = g)"

fun handlerNames :: "nat \<Rightarrow> handler \<Rightarrow> bool" where
  "handlerNames f (Handler h r cb) = names f cb"

fun observerNames :: "nat \<Rightarrow> arrayObserver \<Rightarrow> bool" where
  "observerNames f (ContentDidChange w a u r) = (f = a \<or> f = u \<or> f = r)"

fun subscribes :: "nat \<Rightarrow> action \<Rightarrow> bool" where
  "subscribes f (WatchRecords type a u r) = (f = a \<or> f = u \<or> f = r)"
| "subscribes f other = False"

fun touches :: "nat list \<Rightarrow> action \<Rightarrow> bool" where
  "touches dead (Replace array idx amt objects) = (array \<in> set dead)"
| "touches dead other = False"

definition unused :: "nat list \<Rightarrow> nat \<Rightarrow> adapter \<Rightarrow> bool" where
  "unused dead f s =
     (list_all (\<lambda>ob. \<not> handlerNames f (snd (snd ob))) (observers s)
      \<and> list_all (\<lambda>ao. observerNames f (snd ao) \<longrightarrow> fst ao \<in> set dead) (arrayObservers s))"

definition callsOf :: "nat \<Rightarrow> adapter \<Rightarrow> event list" where
  "callsOf f s = filter (\<lambda>e. fst e = f) (delivered s)"

definition permitted :: "nat list \<Rightarrow> nat \<Rightarrow> action list \<Rightarrow> bool" where
  "permitted dead f as = list_all (\<lambda>a. \<not> subscribes f a \<and> \<not> touches dead a) as"

text \<open>From \<^verbatim>\<open>s\<close> to \<^verbatim>\<open>s'\<close> the function \<^verbatim>\<open>f\<close> is not called and it stays unused.\<close>

definition quiet :: "nat list \<Rightarrow> nat \<Rightarrow> adapter \<Rightarrow> adapter \<Rightarrow> bool" where
  "quiet dead f s s' = (unused dead f s' \<and> callsOf f s' = callsOf f s)"

text \<open>Whether a release function of \<^verbatim>\<open>observeRecord\<close> removes a given registration.\<close>

fun removes :: "recordRelease \<Rightarrow> nat \<times> string \<times> handler \<Rightarrow> bool" where
  "removes (ReleaseRecord rms) ob =
     (RemoveObserver (fst ob) (fst (snd ob)) (snd (snd ob)) \<in> set rms)"

section \<open>Example records\<close>

text \<open>The record of the spec's scenario: type \<^verbatim>\<open>Post\<close> with fields \<^verbatim>\<open>title\<close>, \<^verbatim>\<open>body\<close>.\<close>

definition post :: model where
  "post = \<lparr> attributes = [''title'', ''body''],
            props = [(''id'', Num 1), (''title'', Str ''A''), (''body'', Str ''B''),
                     (''isLoaded'', Bool True), (''isNew'', Bool False),
                     (''isProxy'', Bool False), (''isPromise'', Bool False),
                     (''isDeleted'', Bool False)] \<rparr>"

text \<open>A record that is flagged new while it is not loaded yet.\<close>

definition unloadedNew :: model where
  "unloadedNew = \<lparr> attributes = [''title''],
                   props = [(''id'', Num 2), (''title'', Str ''T''),
                            (''isLoaded'', Bool False), (''isNew'', Bool True)] \<rparr>"

text \<open>Loaded records that are only new, only a proxy, only deleted.\<close>

definition flagged :: "string \<Rightarrow> model" where
  "flagged flag = \<lparr> attributes = [''title''],
                    props = [(''id'', Num 3), (''title'', Str ''T''),
                             (''isLoaded'', Bool True), (flag, Bool True)] \<rparr>"

text \<open>A record whose class declares five attributes.\<close>

definition wide :: model where
  "wide = \<lparr> attributes = [''a'', ''b'', ''c'', ''d'', ''e''],
            props = [(''id'', Num 7), (''a'', Num 10), (''b'', Num 20), (''c'', Num 30),
                     (''d'', Num 40), (''e'', Num 50)] \<rparr>"

section \<open>Example states\<close>

text \<open>
  An adapter that watches nothing yet, with the \<^verbatim>\<open>attributeLimit\<close> of
  \<^verbatim>\<open>Ember.DataAdapter\<close>; every record reference of the store is the record \<^verbatim>\<open>post\<close>.
\<close>

definition initial :: adapter where
  "initial = \<lparr> attributeLimit = 3, nextId = 0, store = (\<lambda>_. post), arrays = (\<lambda>_. []),
               observers = [], arrayObservers = [], locals = (\<lambda>_. []),
               releaseMethods = [], pending = [], cells = (\<lambda>_. 0), delivered = [] \<rparr>"

text \<open>
  The consumer watches the records of type 0 with its functions 10, 11, 12, and then the
  records of type 1 with its functions 20, 21, 22, of type 2 with its functions 30, 31, 32
  and of type 3 with its functions 40, 41, 42.
\<close>

definition oneWatch :: "recordsRelease \<times> adapter" where
  "oneWatch = watchRecords 0 10 11 12 initial"

definition twoWatches :: "recordsRelease \<times> adapter" where
  "twoWatches = watchRecords 1 20 21 22 (snd oneWatch)"

definition threeWatches :: "recordsRelease \<times> adapter" where
  "threeWatches = watchRecords 2 30 31 32 (snd twoWatches)"

definition fourWatches :: "recordsRelease \<times> adapter" where
  "fourWatches = watchRecords 3 40 41 42 (snd threeWatches)"

text \<open>
  A store with two arrays of records, one holding the record 0 (\<^verbatim>\<open>post\<close>) and one
  holding the record 1 (\<^verbatim>\<open>wide\<close>); the consumer watches the first with its functions 10,
  11, 12 and then the second with its functions 20, 21, 22.
\<close>

definition stocked :: adapter where
  "stocked = initial\<lparr>arrays := (arrays initial)(7 := [0], 8 := [1]),
                     store := (store initial)(1 := wide)\<rparr>"

definition bothWatched :: "recordsRelease \<times> adapter" where
  "bothWatched = watchRecordsOn 8 20 21 22 (snd (watchRecordsOn 7 10 11 12 stocked))"

text \<open>The store has then put the record 1 into the first array as well, at index 1.\<close>

definition grown :: adapter where
  "grown = (snd bothWatched)\<lparr>arrays := (arrays (snd bothWatched))(7 := [0, 1])\<rparr>"

text \<open>
  Four subscriptions on that store: the array 7 with the functions 10, 11, 12, the empty
  arrays 5 and 6 with the functions 20, 21, 22 and 30, 31, 32, and the array 8 with the
  functions 40, 41, 42.
\<close>

definition allWatched :: "recordsRelease \<times> adapter" where
  "allWatched = watchRecordsOn 8 40 41 42 (snd (watchRecordsOn 6 30 31 32
                  (snd (watchRecordsOn 5 20 21 22 (snd (watchRecordsOn 7 10 11 12 stocked))))))"

text \<open>
  The first subscription released at once; and events that follow: the promise of that
  subscription resolves, record 0 changes, the array that \<^verbatim>\<open>getRecords\<close> had returned
  changes, the adapter is destroyed.
\<close>

definition released :: adapter where
  "released = releaseRecords (fst oneWatch) (snd oneWatch)"

definition laterOn :: "action list" where
  "laterOn = [Settle 1 (Values 7), SetProperty 0 ''title'' (Str ''Z''), Replace 0 0 0 [0],
              WillDestroy]"

text \<open>
  Events after the first subscription, which is kept: its promise is rejected, record 0
  changes, another array changes, the promise is settled once more.
\<close>

definition afterRejection :: "action list" where
  "afterRejection = [Settle 1 (Failure (Str ''timeout'')), SetProperty 0 ''title'' (Str ''Z''),
                     Replace 7 0 0 [0], Settle 1 (Values 7)]"

section \<open>Properties of the record projector\<close>

lemma fold_push: "fold push xs acc = acc @ xs"
  by (induction xs arbitrary: acc) (simp_all add: push_def)

lemma fold_push_map: "fold (\<lambda>key keywords. push (f key) keywords) keys acc = acc @ map f keys"
  by (induction keys arbitrary: acc) (simp_all add: push_def)

lemma getRecordKeywords_eq:
  "getRecordKeywords record = get record ''id'' # map (get record) (attributes record)"
  by (simp add: getRecordKeywords_def eachAttribute_def fold_push fold_push_map)

text \<open>
  C8. The search keywords of a record are the value of \<^verbatim>\<open>id\<close> followed by the current
  value of every declared attribute, in schema order: one entry for \<^verbatim>\<open>id\<close> and exactly
  one for each declared attribute.
\<close>

theorem getRecordKeywords_schema_order:
  "getRecordKeywords record = get record ''id'' # map (get record) (attributes record)
   \<and> length (getRecordKeywords record) = 1 + length (attributes record)"
  by (simp add: getRecordKeywords_eq)

text \<open>
  C10. The first search keyword is the value of \<^verbatim>\<open>id\<close>, whatever the attribute schema
  is, the empty schema included: the list is never empty and \<^verbatim>\<open>id\<close> comes before
  every attribute value.
\<close>

theorem getRecordKeywords_id_first:
  "getRecordKeywords record \<noteq> []
   \<and> hd (getRecordKeywords record) = get record ''id''
   \<and> getRecordKeywords (record\<lparr>attributes := []\<rparr>) = [get record ''id'']"
  by (simp add: getRecordKeywords_eq get_def)

text \<open>
  C9. \<^verbatim>\<open>getRecordColor\<close> returns, for every record, one of the four colour names
  black, green, blue, red; and it returns black when the record is neither new nor a proxy
  nor a promise.
\<close>

theorem getRecordColor_palette:
  "(getRecordColor record = ''black'' \<or> getRecordColor record = ''green''
      \<or> getRecordColor record = ''blue'' \<or> getRecordColor record = ''red'')
   \<and> (\<not> truthy (get record ''isNew'') \<and> \<not> truthy (get record ''isProxy'')
        \<and> \<not> truthy (get record ''isPromise'') \<longrightarrow> getRecordColor record = ''black'')"
  by (simp add: getRecordColor_def)

theorem getRecordColor_palette_witness:
  "\<not> truthy (get post ''isNew'') \<and> \<not> truthy (get post ''isProxy'')
   \<and> \<not> truthy (get post ''isPromise'') \<and> getRecordColor post = ''black''"
  using getRecordColor_palette [of post] by (simp add: get_def post_def)


text \<open>
  The keys of \<^verbatim>\<open>columnValues\<close>, for a schema without duplicates and without an attribute
  named \<^verbatim>\<open>id\<close>: \<^verbatim>\<open>id\<close> and the first \<^verbatim>\<open>attributeLimit + 1\<close> attributes. The guard
  \<^verbatim>\<open>count++ > attributeLimit\<close> lets the attribute with index \<^verbatim>\<open>attributeLimit\<close> through.
\<close>

lemma obj_set_fresh: "k \<notin> fst ` set kvs \<Longrightarrow> map fst (obj_set k v kvs) = map fst kvs @ [k]"
  by (induction kvs) auto

lemma columns_fold:
  "0 \<le> k \<Longrightarrow> distinct (''id'' # done @ xs) \<Longrightarrow>
   map fst cv = ''id'' # take (nat k + 1) done \<Longrightarrow>
   fold (columnStep k r) xs (int (length done), cv) = (c', cv') \<Longrightarrow>
   map fst cv' = ''id'' # take (nat k + 1) (done @ xs)"
proof (induction xs arbitrary: "done" cv)
  case Nil
  then show ?case by simp
next
  case (Cons x xs)
  let ?st = "columnStep k r x (int (length done), cv)"
  have st: "fst ?st = int (length (done @ [x]))" by (simp add: columnStep_def)
  have keys: "map fst (snd ?st) = ''id'' # take (nat k + 1) (done @ [x])"
  proof (cases "int (length done) > k")
    case True
    then have "Suc (nat k) \<le> length done" using Cons.prems(1) by linarith
    then show ?thesis using True Cons.prems(3) by (simp add: columnStep_def)
  next
    case False
    then have le: "length done \<le> nat k" using Cons.prems(1) by linarith
    have "x \<notin> fst ` set cv"
    proof -
      have "fst ` set cv = set (map fst cv)" by simp
      also have "\<dots> \<subseteq> set (''id'' # done)" unfolding Cons.prems(3) using set_take_subset[of "nat k + 1" "done"] by auto
      finally show ?thesis using Cons.prems(2) by auto
    qed
    then show ?thesis using False le Cons.prems(3) by (simp add: columnStep_def obj_set_fresh)
  qed
  have "fold (columnStep k r) xs (int (length (done @ [x])), snd ?st) = (c', cv')"
    using Cons.prems(4) st by (metis fold_simps(2) prod.collapse)
  from Cons.IH[OF Cons.prems(1) _ keys this] Cons.prems(2) show ?case by simp
qed

lemma getRecordColumnValues_keys:
  assumes "0 \<le> k" "distinct (''id'' # attributes r)"
  shows "map fst (getRecordColumnValues k r) = ''id'' # take (nat k + 1) (attributes r)"
proof -
  obtain c' cv' where f: "fold (columnStep k r) (attributes r) (int (length ([]::string list)), [(''id'', get r ''id'')]) = (c', cv')"
    by (metis surj_pair)
  from columns_fold[OF assms(1) _ _ f] assms(2) have "map fst cv' = ''id'' # take (nat k + 1) (attributes r)" by simp
  then show ?thesis using f by (simp add: getRecordColumnValues_def eachAttribute_def)
qed


text \<open>
  C5. With \<^verbatim>\<open>attributeLimit = 3\<close> and a schema of five attributes, \<^verbatim>\<open>columnValues\<close> has
  five entries: \<^verbatim>\<open>id\<close> and the first four attributes. The fourth attribute \<^verbatim>\<open>d\<close> is
  beyond the first three in schema order, and five is more than \<^verbatim>\<open>attributeLimit + 1\<close>.
\<close>

theorem getRecordColumnValues_over_limit:
  "getRecordColumnValues 3 wide =
     [(''id'', Num 7), (''a'', Num 10), (''b'', Num 20), (''c'', Num 30), (''d'', Num 40)]
   \<and> length (getRecordColumnValues 3 wide) = 5"
  by (simp add: getRecordColumnValues_def eachAttribute_def columnStep_def wide_def get_def)


text \<open>
  C4, as stated, fails for \<^verbatim>\<open>getRecordColor\<close> of lib/debug/debug\_adapter.js: a record that
  is not loaded and is new is green there, not grey.
\<close>

theorem getRecordColor_priority_counterexample:
  "get unloadedNew ''isLoaded'' = Bool False \<and> getRecordColor unloadedNew = ''green''
   \<and> getRecordColor unloadedNew \<noteq> ''grey''"
  by (simp add: getRecordColor_def get_def unloadedNew_def)


text \<open>
  C4, amended. The revision of \<^verbatim>\<open>getRecordColor\<close> that reads \<^verbatim>\<open>isLoaded\<close> follows the
  priority order of the claim: grey when \<^verbatim>\<open>isLoaded\<close> is \<^verbatim>\<open>false\<close>, whatever the other
  flags are; otherwise green when new; otherwise black when a proxy; otherwise red when
  deleted; otherwise black. \<^verbatim>\<open>getRecordColor\<close> of lib/debug/debug\_adapter.js reads neither
  \<^verbatim>\<open>isLoaded\<close> nor \<^verbatim>\<open>isDeleted\<close>: green when new; otherwise blue when a proxy; otherwise
  red when a promise; otherwise black.
\<close>

theorem getRecordColor_priority:
  "(get record ''isLoaded'' = Bool False \<longrightarrow> getRecordColor_logged record = ''grey'')
   \<and> (get record ''isLoaded'' \<noteq> Bool False \<longrightarrow>
        (truthy (get record ''isNew'') \<longrightarrow> getRecordColor_logged record = ''green'')
        \<and> (\<not> truthy (get record ''isNew'') \<and> truthy (get record ''isProxy'')
             \<longrightarrow> getRecordColor_logged record = ''black'')
        \<and> (\<not> truthy (get record ''isNew'') \<and> \<not> truthy (get record ''isProxy'')
             \<and> truthy (get record ''isDeleted'') \<longrightarrow> getRecordColor_logged record = ''red'')
        \<and> (\<not> truthy (get record ''isNew'') \<and> \<not> truthy (get record ''isProxy'')
             \<and> \<not> truthy (get record ''isDeleted'') \<longrightarrow> getRecordColor_logged record = ''black''))
   \<and> (truthy (get record ''isNew'') \<longrightarrow> getRecordColor record = ''green'')
   \<and> (\<not> truthy (get record ''isNew'') \<and> truthy (get record ''isProxy'')
        \<longrightarrow> getRecordColor record = ''blue'')
   \<and> (\<not> truthy (get record ''isNew'') \<and> \<not> truthy (get record ''isProxy'')
        \<and> truthy (get record ''isPromise'') \<longrightarrow> getRecordColor record = ''red'')
   \<and> (\<not> truthy (get record ''isNew'') \<and> \<not> truthy (get record ''isProxy'')
        \<and> \<not> truthy (get record ''isPromise'') \<longrightarrow> getRecordColor record = ''black'')"
  by (simp add: getRecordColor_logged_def getRecordColor_def)

theorem getRecordColor_priority_witness:
  "get unloadedNew ''isLoaded'' = Bool False \<and> getRecordColor_logged unloadedNew = ''grey''
   \<and> get (flagged ''isNew'') ''isLoaded'' \<noteq> Bool False
   \<and> truthy (get (flagged ''isNew'') ''isNew'')
   \<and> getRecordColor_logged (flagged ''isNew'') = ''green''
   \<and> getRecordColor (flagged ''isNew'') = ''green''
   \<and> \<not> truthy (get (flagged ''isProxy'') ''isNew'')
   \<and> truthy (get (flagged ''isProxy'') ''isProxy'')
   \<and> getRecordColor_logged (flagged ''isProxy'') = ''black''
   \<and> getRecordColor (flagged ''isProxy'') = ''blue''
   \<and> \<not> truthy (get (flagged ''isDeleted'') ''isProxy'')
   \<and> truthy (get (flagged ''isDeleted'') ''isDeleted'')
   \<and> getRecordColor_logged (flagged ''isDeleted'') = ''red''
   \<and> truthy (get (flagged ''isPromise'') ''isPromise'')
   \<and> getRecordColor (flagged ''isPromise'') = ''red''
   \<and> \<not> truthy (get post ''isDeleted'') \<and> \<not> truthy (get post ''isPromise'')
   \<and> getRecordColor_logged post = ''black'' \<and> getRecordColor post = ''black''"
  using getRecordColor_priority [of unloadedNew] getRecordColor_priority [of "flagged ''isNew''"]
    getRecordColor_priority [of "flagged ''isProxy''"]
    getRecordColor_priority [of "flagged ''isDeleted''"]
    getRecordColor_priority [of "flagged ''isPromise''"]
    getRecordColor_priority [of post]
  by (simp add: get_def unloadedNew_def flagged_def post_def)



text \<open>
  The scenario of the spec: the record \<^verbatim>\<open>post\<close>, with \<^verbatim>\<open>attributeLimit = 3\<close>, is wrapped
  with the columns \<^verbatim>\<open>id\<close>, \<^verbatim>\<open>title\<close>, \<^verbatim>\<open>body\<close> and the colour black.
\<close>

lemma wrapRecord_post:
  "wrapRecord initial 0 =
     \<lparr> object = 0,
       columnValues = [(''id'', Num 1), (''title'', Str ''A''), (''body'', Str ''B'')],
       searchKeywords = [Num 1, Str ''A'', Str ''B''],
       filterValues = \<lparr> isPromise = Bool False, isProxy = Bool False, isNew = Bool False,
                        isDeleted = Bool False, isLoaded = Bool True \<rparr>,
       color = ''black'' \<rparr>"
  by (simp add: wrapRecord_def initial_def post_def getRecordColumnValues_def eachAttribute_def
        columnStep_def get_def getRecordKeywords_def push_def getRecordFilterValues_def
        getRecordColor_def)

section \<open>Loops over arrays that the callback leaves alone\<close>

text \<open>
  When no call of the callback changes the array, \<^verbatim>\<open>forEach\<close> visits the elements the
  array had at the start, each once and in order.
\<close>

lemma forEachFrom_fold:
  assumes inv: "\<And>x s. array (callback x s) = array s"
  shows "k + n \<le> length (array s) \<Longrightarrow>
         forEachFrom array callback n k s = fold callback (take n (drop k (array s))) s"
proof (induction n arbitrary: k s)
  case 0
  then show ?case by simp
next
  case (Suc n)
  then have k: "k < length (array s)" by simp
  have "take (Suc n) (drop k (array s)) = array s ! k # take n (drop (Suc k) (array s))"
    using k by (simp add: Cons_nth_drop_Suc[symmetric])
  moreover have "Suc k + n \<le> length (array (callback (array s ! k) s))"
    using Suc.prems by (simp add: inv)
  ultimately show ?case using k Suc.IH[of "Suc k" "callback (array s ! k) s"]
    by (simp add: inv)
qed

lemma forEach_fold:
  assumes "\<And>x s. array (callback x s) = array s"
  shows "forEach array callback s = fold callback (array s) s"
  using forEachFrom_fold[of array callback 0 "length (array s)" s, OF assms]
  by (simp add: forEach_def)

section \<open>Release functions\<close>

lemma filter_removeAll: "filter P (removeAll x xs) = filter (\<lambda>y. y \<noteq> x \<and> P y) xs"
  by (induction xs) auto

lemma removes_Cons:
  "removes (ReleaseRecord (RemoveObserver r k h # rms)) ob
   = (ob = (r, k, h) \<or> removes (ReleaseRecord rms) ob)"
  by (cases ob) auto

lemma fold_runRemover:
  "fold runRemover rms s =
     s\<lparr>observers := filter (\<lambda>ob. \<not> removes (ReleaseRecord rms) ob) (observers s)\<rparr>"
proof (induction rms arbitrary: s)
  case Nil
  then show ?case by simp
next
  case (Cons rm rms)
  obtain r k h where rm: "rm = RemoveObserver r k h" by (cases rm)
  have "fold runRemover (rm # rms) s = fold runRemover rms (runRemover rm s)"
    by simp
  also have "\<dots> = (runRemover rm s)\<lparr>observers :=
      filter (\<lambda>ob. \<not> removes (ReleaseRecord rms) ob) (observers (runRemover rm s))\<rparr>"
    by (rule Cons.IH)
  also have "\<dots> = s\<lparr>observers :=
      filter (\<lambda>ob. ob \<noteq> (r, k, h) \<and> \<not> removes (ReleaseRecord rms) ob) (observers s)\<rparr>"
    by (simp add: rm removeObserver_def filter_removeAll del: removes.simps)
  also have "\<dots> = s\<lparr>observers :=
      filter (\<lambda>ob. \<not> removes (ReleaseRecord (rm # rms)) ob) (observers s)\<rparr>"
    unfolding rm removes_Cons by simp
  finally show ?case .
qed

lemma releaseRecord_eq:
  "releaseRecord d s = s\<lparr>observers := filter (\<lambda>ob. \<not> removes d ob) (observers s)\<rparr>"
proof (cases d)
  case (ReleaseRecord rms)
  have "forEach (\<lambda>_. rms) runRemover s = fold runRemover rms s"
    by (rule forEach_fold) simp
  then show ?thesis by (simp add: ReleaseRecord fold_runRemover)
qed

lemma fold_releaseRecord:
  "fold releaseRecord ds s =
     s\<lparr>observers := filter (\<lambda>ob. \<not> (\<exists>d \<in> set ds. removes d ob)) (observers s)\<rparr>"
proof (induction ds arbitrary: s)
  case Nil
  then show ?case by simp
next
  case (Cons d ds)
  have "fold releaseRecord (d # ds) s = fold releaseRecord ds (releaseRecord d s)"
    by simp
  also have "\<dots> = (releaseRecord d s)\<lparr>observers :=
      filter (\<lambda>ob. \<not> (\<exists>d \<in> set ds. removes d ob)) (observers (releaseRecord d s))\<rparr>"
    by (rule Cons.IH)
  also have "\<dots> = s\<lparr>observers :=
      filter (\<lambda>ob. \<not> (\<exists>d \<in> set (d # ds). removes d ob)) (observers s)\<rparr>"
    by (simp add: releaseRecord_eq conj_commute cong: filter_cong)
  finally show ?case .
qed

lemma releaseRecords_eq:
  "releaseRecords (ReleaseRecords w records observer) s =
     s\<lparr>observers := filter (\<lambda>ob. \<not> (\<exists>d \<in> set (locals s w). removes d ob)) (observers s),
       arrayObservers := removeAll (records, observer) (arrayObservers s),
       releaseMethods := removeAll (ReleaseRecords w records observer) (releaseMethods s)\<rparr>"
proof -
  have "forEach (\<lambda>s. locals s w) releaseRecord s = fold releaseRecord (locals s w) s"
    by (rule forEach_fold) (simp add: releaseRecord_eq)
  then show ?thesis
    by (simp add: fold_releaseRecord removeArrayObserver_def Let_def)
qed

declare releaseRecords.simps [simp del]

declare releaseRecord.simps [simp del]

text \<open>
  C6. Calling a release function a second time changes nothing: for the release function of
  \<^verbatim>\<open>observeRecord\<close> and for that of \<^verbatim>\<open>watchRecords\<close>, the state after two calls is the
  state after one call, in particular the observers, the array observers and the adapter's
  \<^verbatim>\<open>releaseMethods\<close>. A release function calls no function of the consumer, and no step of
  it can raise.
\<close>

theorem release_idempotent:
  "releaseRecord d (releaseRecord d s) = releaseRecord d s
   \<and> delivered (releaseRecord d s) = delivered s
   \<and> releaseRecords r (releaseRecords r s) = releaseRecords r s
   \<and> delivered (releaseRecords r s) = delivered s"
proof -
  obtain w records observer where r: "r = ReleaseRecords w records observer" by (cases r)
  have "releaseRecord d (releaseRecord d s) = releaseRecord d s"
    by (simp add: releaseRecord_eq)
  moreover have "releaseRecords r (releaseRecords r s) = releaseRecords r s"
    unfolding r by (simp add: releaseRecords_eq)
  ultimately show ?thesis
    by (simp add: releaseRecord_eq r releaseRecords_eq)
qed

section \<open>The record watcher\<close>

lemma keysToObserve_eq:
  "keysToObserve m = [''id'', ''isNew'', ''isProxy'', ''isPromise'', ''isLoaded'', ''isDeleted'']
     @ attributes m"
  by (simp add: keysToObserve_def eachAttribute_def fold_push)

lemma attached_ids: "ob \<in> set (attached r cb n keys) \<Longrightarrow> n \<le> handlerId (snd (snd ob))"
proof (induction keys arbitrary: n)
  case Nil
  then show ?case by simp
next
  case (Cons key keys)
  then show ?case by (auto dest: Cons.IH)
qed

lemma fold_observeKey:
  "handlersFresh s \<Longrightarrow>
   fold (observeKey r cb) keys (s, rms) =
     (s\<lparr>nextId := nextId s + length keys,
        observers := observers s @ attached r cb (nextId s) keys\<rparr>,
      rms @ removers (attached r cb (nextId s) keys))"
proof (induction keys arbitrary: s rms)
  case Nil
  then show ?case by simp
next
  case (Cons key keys)
  let ?h = "Handler (nextId s) r cb"
  let ?s1 = "s\<lparr>nextId := Suc (nextId s), observers := observers s @ [(r, key, ?h)]\<rparr>"
  have notin: "(r, key, ?h) \<notin> set (observers s)"
    using Cons.prems by (auto simp: handlersFresh_def list_all_iff)
  then have step: "observeKey r cb key (s, rms) = (?s1, rms @ [RemoveObserver r key ?h])"
    by (simp add: observeKey_def addObserver_def push_def Let_def)
  have fresh1: "handlersFresh ?s1"
    using Cons.prems by (auto simp: handlersFresh_def list_all_iff)
  show ?case
    by (simp add: step Cons.IH[OF fresh1])
qed

lemma observeRecord_eq:
  assumes "handlersFresh s"
  shows "observeRecord r cb s =
     (ReleaseRecord (removers (attached r cb (nextId s) (keysToObserve (store s r)))),
      s\<lparr>nextId := nextId s + length (keysToObserve (store s r)),
        observers := observers s @ attached r cb (nextId s) (keysToObserve (store s r))\<rparr>)"
  by (simp add: observeRecord_def fold_observeKey[OF assms])

lemma removes_removers: "removes (ReleaseRecord (removers obs)) ob = (ob \<in> set obs)"
  by (induction obs rule: removers.induct) (auto simp: prod_eq_iff)

lemma wrapRecord_cong:
  "store s' = store s \<Longrightarrow> attributeLimit s' = attributeLimit s \<Longrightarrow> wrapRecord s' r = wrapRecord s r"
  by (simp add: wrapRecord_def)

lemma wrapRecord_delivered [simp]: "wrapRecord (s\<lparr>delivered := d\<rparr>) = wrapRecord s"
  by (rule ext) (simp add: wrapRecord_def)

lemma fired_delivered [simp]: "fired (s\<lparr>delivered := d\<rparr>) h = fired s h"
  by (cases h) simp

lemma fire_eq: "fire h s = s\<lparr>delivered := delivered s @ [fired s h]\<rparr>"
  by (cases h) (simp add: call_def push_def)

lemma fold_fire:
  "fold (\<lambda>ob. fire (snd (snd ob))) obs s =
     s\<lparr>delivered := delivered s @ map (\<lambda>ob. fired s (snd (snd ob))) obs\<rparr>"
proof (induction obs arbitrary: s)
  case Nil
  then show ?case by simp
next
  case (Cons ob obs)
  let ?s1 = "fire (snd (snd ob)) s"
  have "fold (\<lambda>ob. fire (snd (snd ob))) (ob # obs) s = fold (\<lambda>ob. fire (snd (snd ob))) obs ?s1"
    by simp
  also have "\<dots> = ?s1\<lparr>delivered := delivered ?s1 @ map (\<lambda>ob. fired ?s1 (snd (snd ob))) obs\<rparr>"
    by (rule Cons.IH)
  also have "\<dots> = s\<lparr>delivered := delivered s @ map (\<lambda>ob. fired s (snd (snd ob))) (ob # obs)\<rparr>"
    by (simp add: fire_eq)
  finally show ?case .
qed

lemma in_attached: "key \<in> set keys \<Longrightarrow> \<exists>h. (r, key, Handler h r cb) \<in> set (attached r cb n keys)"
proof (induction keys arbitrary: n)
  case Nil
  then show ?case by simp
next
  case (Cons k keys)
  show ?case
  proof (cases "key = k")
    case True
    then have "(r, key, Handler n r cb) \<in> set (attached r cb n (k # keys))" by simp
    then show ?thesis by blast
  next
    case False
    then have "key \<in> set keys" using Cons.prems by simp
    then obtain h where "(r, key, Handler h r cb) \<in> set (attached r cb (Suc n) keys)"
      using Cons.IH by blast
    then have "(r, key, Handler h r cb) \<in> set (attached r cb n (k # keys))" by simp
    then show ?thesis by blast
  qed
qed

lemma filter_off: "(\<And>ob. ob \<in> set obs \<Longrightarrow> ob \<notin> set att) \<Longrightarrow>
    filter (\<lambda>ob. ob \<notin> set att) (obs @ att) = obs"
  by (simp add: filter_id_conv)

lemma observeRecord_props:
  assumes "handlersFresh s"
  shows "observers (snd (observeRecord record recordUpdated s)) =
           observers s @ attached record recordUpdated (nextId s) (keysToObserve (store s record))
         \<and> (key \<in> set (keysToObserve (store s record)) \<and> get (store s record) key \<noteq> v \<longrightarrow>
            delivery recordUpdated
              (wrapRecord (setProperty record key v (snd (observeRecord record recordUpdated s))) record)
            \<in> set (drop (length (delivered (snd (observeRecord record recordUpdated s))))
                 (delivered (setProperty record key v (snd (observeRecord record recordUpdated s))))))
         \<and> observers (releaseRecord (fst (observeRecord record recordUpdated s))
                        (snd (observeRecord record recordUpdated s))) = observers s"
proof -
  define keys where "keys = keysToObserve (store s record)"
  define att where "att = attached record recordUpdated (nextId s) keys"
  let ?s1 = "snd (observeRecord record recordUpdated s)"
  have eq: "observeRecord record recordUpdated s =
     (ReleaseRecord (removers att),
      s\<lparr>nextId := nextId s + length keys, observers := observers s @ att\<rparr>)"
    using observeRecord_eq[OF assms, of "record" recordUpdated] by (simp add: keys_def att_def)
  have one: "observers ?s1 = observers s @ att" by (simp add: eq)
  have three: "observers (releaseRecord (fst (observeRecord record recordUpdated s)) ?s1) = observers s"
  proof -
    have old: "\<And>ob. ob \<in> set (observers s) \<Longrightarrow> ob \<notin> set att"
      using assms attached_ids[of _ "record" recordUpdated "nextId s" keys]
      by (fastforce simp: handlersFresh_def list_all_iff att_def)
    have "filter (\<lambda>ob. ob \<notin> set att) (observers s @ att) = observers s"
      using old by (rule filter_off)
    moreover have "releaseRecord (ReleaseRecord (removers att)) ?s1 =
        ?s1\<lparr>observers := filter (\<lambda>ob. ob \<notin> set att) (observers ?s1)\<rparr>"
      using releaseRecord_eq[of "ReleaseRecord (removers att)" ?s1]
      unfolding removes_removers .
    ultimately show ?thesis unfolding one by (simp add: eq)
  qed
  have two: "delivery recordUpdated (wrapRecord (setProperty record key v ?s1) record)
            \<in> set (drop (length (delivered ?s1)) (delivered (setProperty record key v ?s1)))"
    if key: "key \<in> set keys" and neq: "get (store s record) key \<noteq> v"
  proof -
    let ?s2 = "?s1\<lparr>store := (store ?s1)(record := (store ?s1 record)
                   \<lparr>props := obj_set key v (props (store ?s1 record))\<rparr>)\<rparr>"
    obtain h where h: "(record, key, Handler h record recordUpdated) \<in> set att"
      using in_attached[OF key] unfolding att_def by blast
    have st: "store ?s1 = store s" by (simp add: eq)
    have sp: "setProperty record key v ?s1 = notify record key ?s2"
      using neq by (simp add: setProperty_def st)
    let ?obs = "filter (\<lambda>ob. fst ob = record \<and> fst (snd ob) = key) (observers ?s2)"
    have mem: "(record, key, Handler h record recordUpdated) \<in> set ?obs"
      using h by (simp add: eq)
    have del: "delivered (notify record key ?s2) = delivered ?s1 @
          map (\<lambda>ob. fired ?s2 (snd (snd ob))) ?obs"
      by (simp add: notify_def fold_fire)
    have wr: "wrapRecord (notify record key ?s2) record = wrapRecord ?s2 record"
      by (rule wrapRecord_cong) (simp_all add: notify_def fold_fire)
    have "fired ?s2 (snd (snd (record, key, Handler h record recordUpdated)))
          \<in> set (map (\<lambda>ob. fired ?s2 (snd (snd ob))) ?obs)"
      unfolding set_map using mem by (rule imageI)
    then have "delivery recordUpdated (wrapRecord ?s2 record)
          \<in> set (map (\<lambda>ob. fired ?s2 (snd (snd ob))) ?obs)"
      by simp
    then show ?thesis unfolding sp wr del by simp
  qed
  from one two three show ?thesis unfolding keys_def att_def by blast
qed

text \<open>
  C7. In a state whose handlers are older than \<^verbatim>\<open>nextId\<close>, \<^verbatim>\<open>observeRecord\<close> adds one
  registration, with a handler of its own, for \<^verbatim>\<open>id\<close>, for each of \<^verbatim>\<open>isNew\<close>,
  \<^verbatim>\<open>isProxy\<close>, \<^verbatim>\<open>isPromise\<close>, \<^verbatim>\<open>isLoaded\<close>, \<^verbatim>\<open>isDeleted\<close>, and for every declared
  attribute. Setting one of these keys to a different value calls \<^verbatim>\<open>recordUpdated\<close> with
  the record wrapped in its new state. The release function returned removes all the
  registrations that the call added: the observers are those of before.
\<close>

theorem observeRecord_observes:
  assumes "handlersFresh s"
  shows "observers (snd (observeRecord record recordUpdated s)) =
           observers s @ attached record recordUpdated (nextId s)
             ([''id'', ''isNew'', ''isProxy'', ''isPromise'', ''isLoaded'', ''isDeleted'']
                @ attributes (store s record))
         \<and> (key \<in> set ([''id'', ''isNew'', ''isProxy'', ''isPromise'', ''isLoaded'', ''isDeleted'']
                @ attributes (store s record))
              \<and> get (store s record) key \<noteq> v \<longrightarrow>
            delivery recordUpdated
              (wrapRecord (setProperty record key v (snd (observeRecord record recordUpdated s))) record)
            \<in> set (drop (length (delivered (snd (observeRecord record recordUpdated s))))
                 (delivered (setProperty record key v (snd (observeRecord record recordUpdated s))))))
         \<and> observers (releaseRecord (fst (observeRecord record recordUpdated s))
                        (snd (observeRecord record recordUpdated s))) = observers s"
  using observeRecord_props[OF assms, of "record" recordUpdated key v]
  unfolding keysToObserve_eq .

theorem observeRecord_observes_witness:
  "handlersFresh initial
   \<and> ''title'' \<in> set ([''id'', ''isNew'', ''isProxy'', ''isPromise'', ''isLoaded'', ''isDeleted'']
                @ attributes (store initial 0))
   \<and> get (store initial 0) ''title'' \<noteq> Str ''Z''
   \<and> delivery (Fn 5)
        (wrapRecord (setProperty 0 ''title'' (Str ''Z'') (snd (observeRecord 0 (Fn 5) initial))) 0)
      \<in> set (drop (length (delivered (snd (observeRecord 0 (Fn 5) initial))))
           (delivered (setProperty 0 ''title'' (Str ''Z'') (snd (observeRecord 0 (Fn 5) initial)))))
   \<and> observers (releaseRecord (fst (observeRecord 0 (Fn 5) initial))
                  (snd (observeRecord 0 (Fn 5) initial))) = []"
proof -
  have f: "handlersFresh initial" by (simp add: handlersFresh_def initial_def)
  have k: "''title'' \<in> set ([''id'', ''isNew'', ''isProxy'', ''isPromise'', ''isLoaded'', ''isDeleted'']
                @ attributes (store initial 0))"
    by (simp add: initial_def post_def)
  have v: "get (store initial 0) ''title'' \<noteq> Str ''Z''"
    by (simp add: initial_def post_def get_def)
  have o: "observers initial = []" by (simp add: initial_def)
  show ?thesis
    using observeRecord_observes [OF f, of 0 "Fn 5" "''title''" "Str ''Z''"] f k v o by simp
qed

section \<open>Handlers are new in every state the adapter reaches\<close>

text \<open>
  The condition \<^verbatim>\<open>handlersFresh\<close> holds at the start and every operation keeps it.
\<close>

lemma handlersFresh_initial: "handlersFresh initial"
  by (simp add: handlersFresh_def initial_def)

lemma handlersFresh_observeRecord:
  assumes "handlersFresh s"
  shows "handlersFresh (snd (observeRecord r cb s))"
proof -
  have "\<And>ob. ob \<in> set (attached r cb (nextId s) (keysToObserve (store s r)))
          \<Longrightarrow> handlerId (snd (snd ob)) < nextId s + length (keysToObserve (store s r))"
  proof -
    have g: "\<And>ob n keys. ob \<in> set (attached r cb n keys) \<Longrightarrow> handlerId (snd (snd ob)) < n + length keys"
    proof -
      fix ob n keys show "ob \<in> set (attached r cb n keys) \<Longrightarrow> handlerId (snd (snd ob)) < n + length keys"
        by (induction keys arbitrary: n) (auto, fastforce)
    qed
    fix ob assume "ob \<in> set (attached r cb (nextId s) (keysToObserve (store s r)))"
    then show "handlerId (snd (snd ob)) < nextId s + length (keysToObserve (store s r))" by (rule g)
  qed
  then show ?thesis
    using assms by (fastforce simp: observeRecord_eq[OF assms] handlersFresh_def list_all_iff)
qed

lemma handlersFresh_releaseRecord: "handlersFresh s \<Longrightarrow> handlersFresh (releaseRecord d s)"
  by (simp add: releaseRecord_eq handlersFresh_def list_all_iff)

lemma handlersFresh_releaseRecords: "handlersFresh s \<Longrightarrow> handlersFresh (releaseRecords r s)"
  by (cases r) (simp add: releaseRecords_eq handlersFresh_def list_all_iff)

lemma handlersFresh_setProperty: "handlersFresh s \<Longrightarrow> handlersFresh (setProperty r k v s)"
  by (simp add: setProperty_def notify_def fold_fire handlersFresh_def)

lemma handlersFresh_settle: "handlersFresh s \<Longrightarrow> handlersFresh (snd (settle p out s))"
  by (auto simp: settle_def Let_def handlersFresh_def list_all_iff split: outcome.split)


lemma handlersFresh_getRecords: "handlersFresh s \<Longrightarrow> handlersFresh (snd (getRecords_logged type s))"
  by (auto simp: getRecords_logged_def Let_def handlersFresh_def list_all_iff)

lemma handlersFresh_fields:
  "observers s' = observers s \<Longrightarrow> nextId s \<le> nextId s' \<Longrightarrow> handlersFresh s
   \<Longrightarrow> handlersFresh s'"
  by (fastforce simp: handlersFresh_def list_all_iff)

lemma handlersFresh_watchRecord:
  "handlersFresh (fst st) \<Longrightarrow> handlersFresh (fst (watchRecord w cb r st))"
proof -
  assume a: "handlersFresh (fst st)"
  obtain s acc where st: "st = (s, acc)" by (cases st)
  obtain d s1 where o: "observeRecord r cb s = (d, s1)" by (cases "observeRecord r cb s")
  have "handlersFresh s1" using handlersFresh_observeRecord[of s r cb] a by (simp add: st o)
  then have "handlersFresh (s1\<lparr>locals := (locals s1)(w := push d (locals s1 w))\<rparr>)"
    by (rule handlersFresh_fields[rotated 2]) simp_all
  then show ?thesis by (simp add: watchRecord_def st o Let_def)
qed

lemma handlersFresh_fold_watchRecord:
  "handlersFresh (fst st) \<Longrightarrow> handlersFresh (fst (fold (watchRecord w cb) rs st))"
  by (induction rs arbitrary: st) (simp_all add: handlersFresh_watchRecord)

lemma handlersFresh_watchRecordsOn:
  assumes "handlersFresh s"
  shows "handlersFresh (snd (watchRecordsOn records fa fu fr s))"
proof -
  let ?s0 = "s\<lparr>nextId := Suc (nextId s), locals := (locals s)(nextId s := [])\<rparr>"
  have "handlersFresh ?s0" using assms by (rule handlersFresh_fields[rotated 2]) simp_all
  then have f: "handlersFresh (fst (fold (watchRecord (nextId s) (RecordUpdated fu)) (arrays ?s0 records) (?s0, [])))"
    using handlersFresh_fold_watchRecord[of "(?s0, [])"] by simp
  show ?thesis
    using f
    by (simp add: watchRecordsOn_def Let_def case_prod_unfold addArrayObserver_def handlersFresh_def)
qed

lemma handlersFresh_watchRecords:
  "handlersFresh s \<Longrightarrow> handlersFresh (snd (watchRecords type fa fu fr s))"
  using handlersFresh_watchRecordsOn[OF handlersFresh_getRecords, of s] 
  by (simp add: watchRecords_def case_prod_unfold)

section \<open>Watching records and tearing down\<close>

lemma releaseRecords_registry:
  "releaseMethods (releaseRecords r s) = removeAll r (releaseMethods s)"
  by (cases r) (simp add: releaseRecords_eq)

text \<open>
  The loop over the live array calls the first of two release functions only: that call
  removes the first element, the second one moves to index 0, and the loop goes on at index
  1, where nothing is left. So the method of \<^verbatim>\<open>Ember.DataAdapter\<close> leaves the second one
  uncalled; the method of the class, which runs the loop once more, calls it as well.
\<close>

lemma willDestroy_inherited_two:
  assumes "releaseMethods s = [r1, r2]" and "r1 \<noteq> r2"
  shows "willDestroy_inherited s = releaseRecords r1 s
         \<and> releaseMethods (willDestroy_inherited s) = [r2]"
proof -
  have reg: "releaseMethods (releaseRecords r1 s) = [r2]"
    using assms by (simp add: releaseRecords_registry)
  have "willDestroy_inherited s = releaseRecords r1 s"
    using assms(1) reg by (simp add: willDestroy_inherited_def forEach_def numeral_2_eq_2)
  then show ?thesis using reg by simp
qed

lemma willDestroy_two:
  assumes "releaseMethods s = [r1, r2]" and "r1 \<noteq> r2"
  shows "willDestroy_calls s = [r1, r2] \<and> releaseMethods (willDestroy s) = []"
proof -
  have reg1: "releaseMethods (releaseRecords r1 s) = [r2]"
    using assms by (simp add: releaseRecords_registry)
  have reg2: "releaseMethods (releaseRecords r2 (releaseRecords r1 s)) = []"
    using reg1 by (simp add: releaseRecords_registry)
  have "willDestroy s = releaseRecords r2 (releaseRecords r1 s)"
    using assms(1) reg1
    by (simp add: willDestroy_def willDestroy_inherited_def forEach_def numeral_2_eq_2)
  moreover have "willDestroy_calls s = [r1, r2]"
    using assms(1) reg1
    by (simp add: willDestroy_calls_def noting_def forEach_def numeral_2_eq_2 push_def)
  ultimately show ?thesis using reg2 by simp
qed

text \<open>
  With four release functions the two passes do not reach the last one: the first pass
  calls the first and the third, the second pass calls the second, and the fourth stays.
\<close>

lemma willDestroy_four:
  assumes "releaseMethods s = [r1, r2, r3, r4]" and "distinct [r1, r2, r3, r4]"
  shows "willDestroy_calls s = [r1, r3, r2] \<and> releaseMethods (willDestroy s) = [r4]"
proof -
  let ?s1 = "releaseRecords r1 s"
  let ?s2 = "releaseRecords r3 ?s1"
  let ?s3 = "releaseRecords r2 ?s2"
  have reg1: "releaseMethods ?s1 = [r2, r3, r4]"
    using assms by (auto simp: releaseRecords_registry)
  have reg2: "releaseMethods ?s2 = [r2, r4]"
    using assms(2) reg1 by (auto simp: releaseRecords_registry)
  have reg3: "releaseMethods ?s3 = [r4]"
    using assms(2) reg2 by (auto simp: releaseRecords_registry)
  have inh: "willDestroy_inherited s = ?s2"
    using assms(1) reg1 reg2
    by (simp add: willDestroy_inherited_def forEach_def eval_nat_numeral)
  have "willDestroy s = ?s3"
    using reg2 reg3 by (simp add: willDestroy_def inh forEach_def eval_nat_numeral)
  moreover have "willDestroy_calls s = [r1, r3, r2]"
    using assms(1) reg1 reg2 reg3
    by (simp add: willDestroy_calls_def noting_def forEach_def eval_nat_numeral push_def)
  ultimately show ?thesis using reg3 by simp
qed

text \<open>
  C1. After four calls of \<^verbatim>\<open>watchRecords\<close> the adapter's \<^verbatim>\<open>releaseMethods\<close> holds the
  four release functions, all different. \<^verbatim>\<open>willDestroy\<close>, the pass of \<^verbatim>\<open>this._super()\<close>
  and the pass of the class together, calls the first, the third and the second one, each
  once: a call removes its function from the array, the next one moves into its index, and
  the loop goes on at the index after it. The fourth release function is never called; it
  stays in \<^verbatim>\<open>releaseMethods\<close> and its array observer stays registered.
\<close>

theorem willDestroy_skips:
  "releaseMethods (snd fourWatches)
     = [fst oneWatch, fst twoWatches, fst threeWatches, fst fourWatches]
   \<and> distinct [fst oneWatch, fst twoWatches, fst threeWatches, fst fourWatches]
   \<and> willDestroy_calls (snd fourWatches) = [fst oneWatch, fst threeWatches, fst twoWatches]
   \<and> releaseMethods (willDestroy (snd fourWatches)) = [fst fourWatches]
   \<and> arrayObservers (willDestroy (snd fourWatches)) = [(9, ContentDidChange 11 40 41 42)]"
  by (simp add: fourWatches_def threeWatches_def twoWatches_def oneWatch_def watchRecords_def
        getRecords_logged_def watchRecordsOn_def Let_def push_def addArrayObserver_def
        initial_def willDestroy_def willDestroy_inherited_def willDestroy_calls_def noting_def
        forEach_def removeArrayObserver_def eval_nat_numeral releaseRecords.simps)

text \<open>
  The same on arrays that hold records: after \<^verbatim>\<open>willDestroy\<close> the observers of record 1,
  which the fourth call of \<^verbatim>\<open>watchRecords\<close> registered, are all still there, and a change
  of record 1 still calls the consumer's function 41; a change of record 0 calls nothing.
\<close>

lemmas eval_defs = bothWatched_def stocked_def initial_def watchRecordsOn_def watchRecord_def
  observeRecord_def observeKey_def keysToObserve_def eachAttribute_def push_def addObserver_def
  addArrayObserver_def Let_def post_def wide_def willDestroy_inherited_def
  forEach_def releaseRecords.simps releaseRecord.simps removeObserver_def
  removeArrayObserver_def numeral_2_eq_2 numeral_3_eq_3

lemma willDestroy_leaves_observers:
  "map fst (observers (snd allWatched)) = [0, 0, 0, 0, 0, 0, 0, 0, 1, 1, 1, 1, 1, 1, 1, 1, 1, 1, 1]
   \<and> map fst (observers (willDestroy (snd allWatched))) = [1, 1, 1, 1, 1, 1, 1, 1, 1, 1, 1]"
  by (simp add: allWatched_def willDestroy_def eval_defs eval_nat_numeral)

lemma willDestroy_leaves_callbacks:
  "map fst (delivered (willDestroy (snd allWatched))) = [10, 20, 30, 40]
   \<and> map fst (delivered (setProperty 1 ''a'' (Num 11) (willDestroy (snd allWatched))))
       = [10, 20, 30, 40, 41]
   \<and> map fst (delivered (setProperty 0 ''title'' (Str ''Z'') (willDestroy (snd allWatched))))
       = [10, 20, 30, 40]"
  by (simp add: allWatched_def willDestroy_def eval_defs eval_nat_numeral setProperty_def
        notify_def get_def call_def)

text \<open>
  An adapter that inherits \<^verbatim>\<open>willDestroy\<close> keeps the observers of record 1 already with
  two subscriptions.
\<close>

lemma willDestroy_inherited_leaves_observers:
  "map fst (observers (willDestroy_inherited (snd bothWatched)))
     = [1, 1, 1, 1, 1, 1, 1, 1, 1, 1, 1]"
  by (simp add: eval_defs)

text \<open>
  \<^verbatim>\<open>contentDidChange\<close> on that store: for an insertion at index 1 it calls
  \<^verbatim>\<open>recordsAdded\<close> (function 10), for a removal \<^verbatim>\<open>recordsRemoved\<close> (function 12), and an
  index beyond the end of the array raises.
\<close>

lemma contentDidChange_example:
  "map_sum id (\<lambda>s. map fst (delivered s))
     (contentDidChange (ContentDidChange 0 10 11 12) 7 1 0 1 grown) = Inr [10, 20, 10]
   \<and> map_sum id (\<lambda>s. map fst (delivered s))
     (contentDidChange (ContentDidChange 0 10 11 12) 7 0 1 0 grown) = Inr [10, 20, 12]
   \<and> contentDidChange (ContentDidChange 0 10 11 12) 7 2 0 1 grown = Inl TypeError"
  by (simp add: grown_def eval_defs)

section \<open>Settling the promise\<close>

lemma getRecords_empty: "arrays (snd (getRecords_logged type s)) (fst (getRecords_logged type s)) = []"
  by (simp add: getRecords_logged_def Let_def)

lemma watchRecordsOn_empty:
  assumes "arrays s records = []"
  shows "delivered (snd (watchRecordsOn records fa fu fr s)) = delivered s @ [(fa, ArgRecords [])]"
    and "observers (snd (watchRecordsOn records fa fu fr s)) = observers s"
    and "locals (snd (watchRecordsOn records fa fu fr s)) = (locals s)(nextId s := [])"
    and "fst (watchRecordsOn records fa fu fr s)
           = ReleaseRecords (nextId s) records (ContentDidChange (nextId s) fa fu fr)"
    and "store (snd (watchRecordsOn records fa fu fr s)) = store s"
    and "arrays (snd (watchRecordsOn records fa fu fr s)) = arrays s"
  using assms by (simp_all add: watchRecordsOn_def Let_def push_def addArrayObserver_def)

lemma settle_inert:
  "delivered (snd (settle promise out s)) = delivered s
   \<and> observers (snd (settle promise out s)) = observers s
   \<and> arrayObservers (snd (settle promise out s)) = arrayObservers s
   \<and> releaseMethods (snd (settle promise out s)) = releaseMethods s
   \<and> locals (snd (settle promise out s)) = locals s
   \<and> store (snd (settle promise out s)) = store s
   \<and> fst (settle promise out s) = Inr Undefined"
  by (simp add: settle_def Let_def split: outcome.split)

lemma watchRecords_delivered:
  "delivered (snd (watchRecords type fa fu fr s)) = delivered s @ [(fa, ArgRecords [])]"
  "observers (snd (watchRecords type fa fu fr s)) = observers s"
  "locals (snd (watchRecords type fa fu fr s)) = (locals s)(Suc (Suc (nextId s)) := [])"
  "fst (watchRecords type fa fu fr s)
     = ReleaseRecords (Suc (Suc (nextId s))) (nextId s) (ContentDidChange (Suc (Suc (nextId s))) fa fu fr)"
proof -
  obtain records s1 where g: "getRecords_logged type s = (records, s1)" by (cases "getRecords_logged type s")
  have e: "arrays s1 records = []" using getRecords_empty[of type s] by (simp add: g)
  have s1: "delivered s1 = delivered s" "observers s1 = observers s" "nextId s1 = Suc (Suc (nextId s))"
     "locals s1 = locals s" "records = nextId s"
    using g by (auto simp: getRecords_logged_def Let_def)
  show "delivered (snd (watchRecords type fa fu fr s)) = delivered s @ [(fa, ArgRecords [])]"
    "observers (snd (watchRecords type fa fu fr s)) = observers s"
    "locals (snd (watchRecords type fa fu fr s)) = (locals s)(Suc (Suc (nextId s)) := [])"
    "fst (watchRecords type fa fu fr s)
     = ReleaseRecords (Suc (Suc (nextId s))) (nextId s) (ContentDidChange (Suc (Suc (nextId s))) fa fu fr)"
    using watchRecordsOn_empty[OF e, of fa fu fr] by (simp_all add: watchRecords_def g s1)
qed

section \<open>A function that nothing names is not called\<close>

lemma quiet_refl: "unused dead f s \<Longrightarrow> quiet dead f s s"
  by (simp add: quiet_def)

lemma quiet_trans: "quiet dead f s s1 \<Longrightarrow> quiet dead f s1 s2 \<Longrightarrow> quiet dead f s s2"
  by (simp add: quiet_def)

lemma delivery_fst: "\<not> names f cb \<Longrightarrow> fst (delivery cb w) \<noteq> f"
  by (cases cb) auto

lemma fired_fst: "\<not> handlerNames f h \<Longrightarrow> fst (fired s h) \<noteq> f"
  by (cases h) (simp add: delivery_fst)

lemma quiet_setProperty:
  assumes "unused dead f s"
  shows "quiet dead f s (setProperty r k v s)"
proof -
  let ?s2 = "s\<lparr>store := (store s)(r := (store s r)\<lparr>props := obj_set k v (props (store s r))\<rparr>)\<rparr>"
  let ?obs = "filter (\<lambda>ob. fst ob = r \<and> fst (snd ob) = k) (observers s)"
  have n: "notify r k ?s2 = ?s2\<lparr>delivered := delivered s @ map (\<lambda>ob. fired ?s2 (snd (snd ob))) ?obs\<rparr>"
    by (simp add: notify_def fold_fire)
  have "\<And>ob. ob \<in> set ?obs \<Longrightarrow> fst (fired ?s2 (snd (snd ob))) \<noteq> f"
  proof -
    fix ob assume "ob \<in> set ?obs"
    then have "ob \<in> set (observers s)" by simp
    then have "\<not> handlerNames f (snd (snd ob))"
      using assms by (simp add: unused_def list_all_iff)
    then show "fst (fired ?s2 (snd (snd ob))) \<noteq> f" by (rule fired_fst)
  qed
  then have "filter (\<lambda>e. fst e = f) (map (\<lambda>ob. fired ?s2 (snd (snd ob))) ?obs) = []"
    by (simp add: filter_empty_conv del: set_filter)
  then show ?thesis
    using assms by (simp add: setProperty_def n quiet_def callsOf_def unused_def)
qed

lemma quiet_settle: "unused dead f s \<Longrightarrow> quiet dead f s (snd (settle p out s))"
  by (simp add: quiet_def callsOf_def unused_def settle_inert)

lemma quiet_releaseRecords: "unused dead f s \<Longrightarrow> quiet dead f s (releaseRecords r s)"
  by (cases r) (simp add: releaseRecords_eq quiet_def callsOf_def unused_def list_all_iff)

lemma forEachFrom_invariant:
  assumes "\<And>x s. P s \<Longrightarrow> P (callback x s)" and "P s"
  shows "P (forEachFrom array callback n k s)"
  using assms(2) by (induction n arbitrary: k s) (simp_all add: assms(1))

lemma quiet_willDestroy_inherited:
  assumes "unused dead f s"
  shows "quiet dead f s (willDestroy_inherited s)"
proof -
  have "quiet dead f s (forEachFrom releaseMethods releaseRecords (length (releaseMethods s)) 0 s)"
  proof (rule forEachFrom_invariant[where P = "quiet dead f s"])
    fix x s1 assume q: "quiet dead f s s1"
    then have "unused dead f s1" by (simp add: quiet_def)
    from quiet_trans[OF q quiet_releaseRecords[OF this]] show "quiet dead f s (releaseRecords x s1)" .
  next
    show "quiet dead f s s" using assms by (rule quiet_refl)
  qed
  then show ?thesis by (simp add: willDestroy_inherited_def forEach_def)
qed

lemma quiet_willDestroy:
  assumes "unused dead f s"
  shows "quiet dead f s (willDestroy s)"
proof -
  let ?s1 = "willDestroy_inherited s"
  have q1: "quiet dead f s ?s1" using assms by (rule quiet_willDestroy_inherited)
  then have "unused dead f ?s1" by (simp add: quiet_def)
  then have "quiet dead f ?s1 (willDestroy_inherited ?s1)" by (rule quiet_willDestroy_inherited)
  with q1 have "quiet dead f s (willDestroy_inherited ?s1)" by (rule quiet_trans)
  then show ?thesis by (simp add: willDestroy_def willDestroy_inherited_def)
qed


lemma unused_fields:
  "observers s' = observers s \<Longrightarrow> arrayObservers s' = arrayObservers s
   \<Longrightarrow> delivered s' = delivered s \<Longrightarrow> unused dead f s \<Longrightarrow> quiet dead f s s'"
  by (simp add: quiet_def unused_def callsOf_def)

lemma quiet_observeKey:
  assumes "\<not> names f cb" and "unused dead f (fst st)"
  shows "quiet dead f (fst st) (fst (observeKey r cb key st))"
proof -
  obtain s rms where st: "st = (s, rms)" by (cases st)
  show ?thesis
    using assms
    by (simp add: st observeKey_def addObserver_def Let_def push_def quiet_def unused_def callsOf_def)
qed

lemma quiet_fold_observeKey:
  assumes "\<not> names f cb"
  shows "unused dead f (fst st) \<Longrightarrow> quiet dead f (fst st) (fst (fold (observeKey r cb) keys st))"
proof (induction keys arbitrary: st)
  case Nil
  then show ?case by (simp add: quiet_refl)
next
  case (Cons key keys)
  have q1: "quiet dead f (fst st) (fst (observeKey r cb key st))"
    using assms Cons.prems by (rule quiet_observeKey)
  then have "unused dead f (fst (observeKey r cb key st))" by (simp add: quiet_def)
  then have "quiet dead f (fst (observeKey r cb key st)) (fst (fold (observeKey r cb) keys (observeKey r cb key st)))"
    by (rule Cons.IH)
  with q1 show ?case by (simp add: quiet_trans)
qed

lemma quiet_observeRecord:
  assumes "\<not> names f cb" and "unused dead f s"
  shows "quiet dead f s (snd (observeRecord r cb s))"
  using quiet_fold_observeKey[OF assms(1), of dead "(s, [])" r "keysToObserve (store s r)"] assms(2)
  by (simp add: observeRecord_def case_prod_unfold)

lemma quiet_watchRecord:
  assumes "\<not> names f cb" and "unused dead f (fst st)"
  shows "quiet dead f (fst st) (fst (watchRecord w cb r st))"
proof -
  obtain s acc where st: "st = (s, acc)" by (cases st)
  obtain d s1 where o: "observeRecord r cb s = (d, s1)" by (cases "observeRecord r cb s")
  have q: "quiet dead f s s1" using quiet_observeRecord[OF assms(1), of dead s r] assms(2) by (simp add: st o)
  then have "unused dead f s1" by (simp add: quiet_def)
  then have "quiet dead f s1 (s1\<lparr>locals := (locals s1)(w := push d (locals s1 w))\<rparr>)"
    by (rule unused_fields[rotated 3]) simp_all
  with q show ?thesis by (simp add: watchRecord_def st o Let_def quiet_trans)
qed

lemma quiet_fold_watchRecord:
  assumes "\<not> names f cb"
  shows "unused dead f (fst st) \<Longrightarrow> quiet dead f (fst st) (fst (fold (watchRecord w cb) rs st))"
proof (induction rs arbitrary: st)
  case Nil
  then show ?case by (simp add: quiet_refl)
next
  case (Cons r rs)
  have q1: "quiet dead f (fst st) (fst (watchRecord w cb r st))"
    using assms Cons.prems by (rule quiet_watchRecord)
  then have "unused dead f (fst (watchRecord w cb r st))" by (simp add: quiet_def)
  then have "quiet dead f (fst (watchRecord w cb r st)) (fst (fold (watchRecord w cb) rs (watchRecord w cb r st)))"
    by (rule Cons.IH)
  with q1 show ?case by (simp add: quiet_trans)
qed

lemma quiet_watchRecordsOn:
  assumes "f \<noteq> fa" "f \<noteq> fu" "f \<noteq> fr" and "unused dead f s"
  shows "quiet dead f s (snd (watchRecordsOn records fa fu fr s))"
proof -
  let ?s0 = "s\<lparr>nextId := Suc (nextId s), locals := (locals s)(nextId s := [])\<rparr>"
  let ?st = "fold (watchRecord (nextId s) (RecordUpdated fu)) (arrays ?s0 records) (?s0, [])"
  have q0: "quiet dead f s ?s0" using assms(4) by (rule unused_fields[rotated 3]) simp_all
  then have u0: "unused dead f (fst (?s0, []::wrapped list))" by (simp add: quiet_def)
  have "\<not> names f (RecordUpdated fu)" using assms(2) by simp
  from quiet_fold_watchRecord[OF this u0] have q1: "quiet dead f ?s0 (fst ?st)" by simp
  have q: "quiet dead f s (fst ?st)" using q0 q1 by (rule quiet_trans)
  show ?thesis
    using q assms(1,2,3)
    by (simp add: watchRecordsOn_def Let_def case_prod_unfold addArrayObserver_def push_def
          quiet_def unused_def callsOf_def)
qed

lemma quiet_watchRecords:
  assumes "f \<noteq> fa" "f \<noteq> fu" "f \<noteq> fr" and "unused dead f s"
  shows "quiet dead f s (snd (watchRecords type fa fu fr s))"
proof -
  have "quiet dead f s (snd (getRecords_logged type s))"
    using assms(4) by (rule unused_fields[rotated 3]) (simp_all add: getRecords_logged_def Let_def)
  moreover from this have "unused dead f (snd (getRecords_logged type s))" by (simp add: quiet_def)
  ultimately show ?thesis
    using quiet_watchRecordsOn[OF assms(1-3), of dead "snd (getRecords_logged type s)" "fst (getRecords_logged type s)"]
    by (simp add: watchRecords_def case_prod_unfold quiet_trans)
qed


lemma quiet_added:
  assumes "\<not> observerNames f observer"
  shows "unused dead f s \<Longrightarrow> added observer array i n s = Inr s' \<Longrightarrow> quiet dead f s s'"
  using assms
proof (induction observer array i n s rule: added.induct)
  case (1 observer array i s)
  then show ?case by (simp add: quiet_refl)
next
  case (2 w fa fu fr array i n s)
  let ?ob = "ContentDidChange w fa fu fr"
  from "2.prems"(3) have ne: "f \<noteq> fa" "f \<noteq> fu" "f \<noteq> fr" by auto
  from "2.prems"(2) have inr: "i < length (arrays s array)" by (simp split: if_splits)
  obtain d s1 where o: "observeRecord (arrays s array ! i) (RecordUpdated fu) s = (d, s1)"
    by (cases "observeRecord (arrays s array ! i) (RecordUpdated fu) s")
  let ?s2 = "s1\<lparr>locals := (locals s1)(w := push d (locals s1 w))\<rparr>"
  let ?s3 = "?s2\<lparr>delivered := push (fa, ArgRecords [wrapRecord s (arrays s array ! i)]) (delivered ?s2)\<rparr>"
  have q1: "quiet dead f s s1"
    using quiet_observeRecord[of f "RecordUpdated fu" dead s "arrays s array ! i"] ne "2.prems"(1)
    by (simp add: o)
  then have q3: "quiet dead f s ?s3"
    using ne by (simp add: quiet_def unused_def callsOf_def push_def)
  then have u3: "unused dead f ?s3" by (simp add: quiet_def)
  have rest: "added ?ob array (Suc i) n ?s3 = Inr s'"
    using "2.prems"(2) inr by (simp add: o Let_def)
  have "quiet dead f ?s3 s'"
    using "2.IH"[OF inr refl refl refl o[symmetric] refl refl u3 rest "2.prems"(3)] .
  with q3 show ?case by (rule quiet_trans)
qed

lemma quiet_contentDidChange:
  assumes "\<not> observerNames f observer" and "unused dead f s"
    and "contentDidChange observer array idx removedCount addedCount s = Inr s'"
  shows "quiet dead f s s'"
proof -
  obtain w fa fu fr where ob: "observer = ContentDidChange w fa fu fr" by (cases observer)
  from assms(1) have ne: "f \<noteq> fr" by (simp add: ob)
  from assms(3) obtain s1 where a: "added observer array idx addedCount s = Inr s1"
    by (auto simp: ob split: sum.splits)
  have q1: "quiet dead f s s1" using assms(1,2) a by (rule quiet_added)
  have "s' = s1 \<or> s' = s1\<lparr>delivered := push (fr, ArgRemoved idx removedCount) (delivered s1)\<rparr>"
    using assms(3) a by (auto simp: ob split: if_splits)
  then show ?thesis
    using q1 ne by (auto simp: quiet_def unused_def callsOf_def push_def)
qed

lemma quiet_notifyArray:
  "list_all (\<lambda>ao. fst ao = array \<longrightarrow> \<not> observerNames f (snd ao)) aos \<Longrightarrow> unused dead f s \<Longrightarrow>
   notifyArray aos array idx removedCount addedCount s = Inr s' \<Longrightarrow> quiet dead f s s'"
proof (induction aos arbitrary: s)
  case Nil
  then show ?case by (simp add: quiet_refl)
next
  case (Cons ao aos)
  obtain a observer where ao: "ao = (a, observer)" by (cases ao)
  show ?case
  proof (cases "a = array")
    case True
    from Cons.prems(3) obtain s1 where
      c: "contentDidChange observer array idx removedCount addedCount s = Inr s1" and
      r: "notifyArray aos array idx removedCount addedCount s1 = Inr s'"
      by (auto simp: ao True split: sum.splits)
    have "\<not> observerNames f observer" using Cons.prems(1) by (simp add: ao True)
    from quiet_contentDidChange[OF this Cons.prems(2) c] have q1: "quiet dead f s s1" .
    then have "unused dead f s1" by (simp add: quiet_def)
    from Cons.IH[OF _ this r] Cons.prems(1) have "quiet dead f s1 s'" by simp
    with q1 show ?thesis by (rule quiet_trans)
  next
    case False
    then have "notifyArray aos array idx removedCount addedCount s = Inr s'"
      using Cons.prems(3) by (simp add: ao)
    from Cons.IH[OF _ Cons.prems(2) this] Cons.prems(1) show ?thesis by simp
  qed
qed

lemma quiet_replace:
  assumes "unused dead f s" and "array \<notin> set dead" and "replace array idx amt objects s = Inr s'"
  shows "quiet dead f s s'"
proof -
  let ?s1 = "s\<lparr>arrays := (arrays s)(array :=
                  take idx (arrays s array) @ objects @ drop (idx + amt) (arrays s array))\<rparr>"
  have q1: "quiet dead f s ?s1" using assms(1) by (rule unused_fields[rotated 3]) simp_all
  then have u1: "unused dead f ?s1" by (simp add: quiet_def)
  then have l: "list_all (\<lambda>ao. fst ao = array \<longrightarrow> \<not> observerNames f (snd ao)) (arrayObservers ?s1)"
    using assms(2) by (auto simp: unused_def list_all_iff)
  have "notifyArray (arrayObservers ?s1) array idx amt (length objects) ?s1 = Inr s'"
    using assms(3) by (simp add: replace_def Let_def)
  from quiet_notifyArray[OF l u1 this] q1 show ?thesis by (simp add: quiet_trans)
qed

lemma quiet_step:
  assumes "unused dead f s" and "\<not> subscribes f a" and "\<not> touches dead a" and "step a s = Inr s'"
  shows "quiet dead f s s'"
proof (cases a)
  case (SetProperty r k v)
  then show ?thesis using assms quiet_setProperty by auto
next
  case (Replace array idx amt objects)
  then show ?thesis using assms quiet_replace by auto
next
  case (Settle p out)
  then show ?thesis using assms quiet_settle by auto
next
  case (Release r)
  then show ?thesis using assms quiet_releaseRecords by auto
next
  case WillDestroy
  then show ?thesis using assms quiet_willDestroy_inherited by auto
next
  case (WatchRecords type fa fu fr)
  then show ?thesis using assms quiet_watchRecords by auto
qed

lemma quiet_run:
  "unused dead f s \<Longrightarrow> permitted dead f as \<Longrightarrow> run as s = Inr s' \<Longrightarrow> quiet dead f s s'"
proof (induction as arbitrary: s)
  case Nil
  then show ?case by (simp add: quiet_refl)
next
  case (Cons a as)
  from Cons.prems(3) obtain s1 where st: "step a s = Inr s1" and r: "run as s1 = Inr s'"
    by (auto split: sum.splits)
  have "\<not> subscribes f a" "\<not> touches dead a" using Cons.prems(2) by (simp_all add: permitted_def)
  with Cons.prems(1) have q1: "quiet dead f s s1" using st by (rule quiet_step)
  then have "unused dead f s1" by (simp add: quiet_def)
  from Cons.IH[OF this _ r] Cons.prems(2) have "quiet dead f s1 s'" by (simp add: permitted_def)
  with q1 show ?case by (rule quiet_trans)
qed

lemma unused_after_release:
  assumes "unused [] f s"
  shows "unused [] f (releaseRecords (fst (watchRecords type fa fu fr s)) (snd (watchRecords type fa fu fr s)))"
    and "callsOf f (releaseRecords (fst (watchRecords type fa fu fr s)) (snd (watchRecords type fa fu fr s)))
         = callsOf f s @ (if f = fa then [(fa, ArgRecords [])] else [])"
proof -
  let ?W = "watchRecords type fa fu fr s"
  obtain w records ob where r: "fst ?W = ReleaseRecords w records ob" by (cases "fst ?W")
  have l: "locals (snd ?W) w = []"
    using r by (simp add: watchRecords_delivered)
  have ao: "set (arrayObservers (snd ?W)) \<subseteq> insert (records, ob) (set (arrayObservers s))"
    using r by (auto simp: watchRecords_def watchRecordsOn_def getRecords_logged_def Let_def
          addArrayObserver_def push_def split: if_splits)
  have "releaseRecords (fst ?W) (snd ?W) = (snd ?W)\<lparr>
       observers := filter (\<lambda>ob. \<not> (\<exists>d \<in> set (locals (snd ?W) w). removes d ob))
                      (observers (snd ?W)),
       arrayObservers := removeAll (records, ob) (arrayObservers (snd ?W)),
       releaseMethods := removeAll (fst ?W) (releaseMethods (snd ?W))\<rparr>"
    unfolding r by (rule releaseRecords_eq)
  then have rel: "releaseRecords (fst ?W) (snd ?W) = (snd ?W)\<lparr>
       observers := observers s,
       arrayObservers := removeAll (records, ob) (arrayObservers (snd ?W)),
       releaseMethods := removeAll (fst ?W) (releaseMethods (snd ?W))\<rparr>"
    unfolding l by (simp add: watchRecords_delivered(2))
  have "set (removeAll (records, ob) (arrayObservers (snd ?W))) \<subseteq> set (arrayObservers s)"
    using ao by auto
  then show "unused [] f (releaseRecords (fst ?W) (snd ?W))"
    using assms unfolding rel by (auto simp: unused_def list_all_iff)
  show "callsOf f (releaseRecords (fst ?W) (snd ?W))
         = callsOf f s @ (if f = fa then [(fa, ArgRecords [])] else [])"
    unfolding rel by (simp add: callsOf_def watchRecords_delivered(1))
qed

lemma unused_after_watch:
  assumes "unused [] f s"
  shows "unused [fst (getRecords_logged type s)] f (snd (watchRecords type fa fu fr s))"
proof -
  let ?W = "watchRecords type fa fu fr s"
  have ao: "set (arrayObservers (snd ?W))
      \<subseteq> insert (fst (getRecords_logged type s), ContentDidChange (Suc (Suc (nextId s))) fa fu fr)
           (set (arrayObservers s))"
    by (auto simp: watchRecords_def watchRecordsOn_def getRecords_logged_def Let_def
          addArrayObserver_def push_def split: if_splits)
  have "\<And>ao. ao \<in> set (arrayObservers (snd ?W)) \<Longrightarrow> observerNames f (snd ao)
          \<Longrightarrow> fst ao = fst (getRecords_logged type s)"
  proof -
    fix ao assume m: "ao \<in> set (arrayObservers (snd ?W))" and n: "observerNames f (snd ao)"
    from assms have "ao \<notin> set (arrayObservers s)" using n by (auto simp: unused_def list_all_iff)
    with m ao show "fst ao = fst (getRecords_logged type s)" by auto
  qed
  then show ?thesis
    using assms by (auto simp: unused_def list_all_iff watchRecords_delivered(2))
qed

lemma released_eq: "released =
   \<lparr>attributeLimit = 3, nextId = 3, store = \<lambda>_. post, arrays = (\<lambda>_. [])(0 := []),
      observers = [], arrayObservers = [], locals = (\<lambda>_. [])(2 := []),
      releaseMethods = [], pending = [(1, 0)], cells = (\<lambda>_. 0)(1 := 0),
      delivered = [(10, ArgRecords [])]\<rparr>"
  by (simp add: released_def oneWatch_def watchRecords_def getRecords_logged_def
        watchRecordsOn_def Let_def push_def addArrayObserver_def initial_def
        forEach_def removeArrayObserver_def releaseRecords.simps numeral_2_eq_2 numeral_3_eq_3)

lemma run_laterOn: "\<not> isl (run laterOn released)"
  by (simp add: released_eq laterOn_def settle_def setProperty_def notify_def get_def post_def
        replace_def willDestroy_inherited_def forEach_def Let_def)

lemma oneWatch_eq: "snd oneWatch =
   \<lparr>attributeLimit = 3, nextId = 3, store = \<lambda>_. post, arrays = (\<lambda>_. [])(0 := []),
      observers = [], arrayObservers = [(0, ContentDidChange 2 10 11 12)],
      locals = (\<lambda>_. [])(2 := []),
      releaseMethods = [ReleaseRecords 2 0 (ContentDidChange 2 10 11 12)],
      pending = [(1, 0)], cells = (\<lambda>_. 0)(1 := 0),
      delivered = [(10, ArgRecords [])]\<rparr>"
  by (simp add: oneWatch_def watchRecords_def getRecords_logged_def
        watchRecordsOn_def Let_def push_def addArrayObserver_def initial_def
        numeral_2_eq_2 numeral_3_eq_3)

lemma run_afterRejection: "\<not> isl (run afterRejection (snd oneWatch))"
  by (simp add: oneWatch_eq afterRejection_def settle_def setProperty_def notify_def get_def
        post_def replace_def Let_def)

section \<open>Rejection and release before resolution\<close>

text \<open>
  C3. The array that \<^verbatim>\<open>getRecords\<close> returns is empty, so \<^verbatim>\<open>watchRecords\<close> calls
  \<^verbatim>\<open>recordsAdded\<close> once, with an empty batch. When the promise is rejected afterwards, the
  function attached for the failure returns normally, no further call reaches the consumer
  and no record is observed. And \<^verbatim>\<open>recordsAdded\<close> is called exactly once over any run of
  later events that does not raise, the rejection among them: if nothing named
  \<^verbatim>\<open>recordsAdded\<close> before the call, the consumer does not pass it to \<^verbatim>\<open>watchRecords\<close> again,
  and the store does not change the array that \<^verbatim>\<open>getRecords\<close> made (it holds no reference to
  it), then the calls of \<^verbatim>\<open>recordsAdded\<close> at the end are those of before and the one with
  the empty batch.
\<close>

theorem rejection_delivers_empty_batch:
  "arrays (snd (getRecords_logged type s)) (fst (getRecords_logged type s)) = []
   \<and> delivered (snd (watchRecords type recordsAdded recordsUpdated recordsRemoved s))
       = delivered s @ [(recordsAdded, ArgRecords [])]
   \<and> fst (settle promise (Failure err)
            (snd (watchRecords type recordsAdded recordsUpdated recordsRemoved s))) = Inr Undefined
   \<and> delivered (snd (settle promise (Failure err)
            (snd (watchRecords type recordsAdded recordsUpdated recordsRemoved s))))
       = delivered s @ [(recordsAdded, ArgRecords [])]
   \<and> observers (snd (settle promise (Failure err)
            (snd (watchRecords type recordsAdded recordsUpdated recordsRemoved s))))
       = observers s
   \<and> (unused [] recordsAdded s
        \<and> permitted [fst (getRecords_logged type s)] recordsAdded later
        \<and> run later (snd (watchRecords type recordsAdded recordsUpdated recordsRemoved s)) = Inr s'
       \<longrightarrow> callsOf recordsAdded s' = callsOf recordsAdded s @ [(recordsAdded, ArgRecords [])])"
proof -
  let ?W = "watchRecords type recordsAdded recordsUpdated recordsRemoved s"
  have later: "callsOf recordsAdded s' = callsOf recordsAdded s @ [(recordsAdded, ArgRecords [])]"
    if u: "unused [] recordsAdded s"
      and n: "permitted [fst (getRecords_logged type s)] recordsAdded later"
      and run: "run later (snd ?W) = Inr s'"
  proof -
    have "quiet [fst (getRecords_logged type s)] recordsAdded (snd ?W) s'"
      using unused_after_watch[OF u] n run by (rule quiet_run)
    then show ?thesis
      by (simp add: quiet_def callsOf_def watchRecords_delivered(1))
  qed
  then have forever: "unused [] recordsAdded s
        \<and> permitted [fst (getRecords_logged type s)] recordsAdded later
        \<and> run later (snd ?W) = Inr s'
       \<longrightarrow> callsOf recordsAdded s' = callsOf recordsAdded s @ [(recordsAdded, ArgRecords [])]"
    by blast
  have now: "arrays (snd (getRecords_logged type s)) (fst (getRecords_logged type s)) = []
   \<and> delivered (snd ?W) = delivered s @ [(recordsAdded, ArgRecords [])]
   \<and> fst (settle promise (Failure err) (snd ?W)) = Inr Undefined
   \<and> delivered (snd (settle promise (Failure err) (snd ?W)))
       = delivered s @ [(recordsAdded, ArgRecords [])]
   \<and> observers (snd (settle promise (Failure err) (snd ?W))) = observers s"
    by (simp add: getRecords_empty watchRecords_delivered settle_inert)
  from now forever show ?thesis by blast
qed

theorem rejection_delivers_empty_batch_witness:
  "unused [] 10 initial
   \<and> permitted [fst (getRecords_logged 0 initial)] 10 afterRejection
   \<and> run afterRejection (snd (watchRecords 0 10 11 12 initial))
       = Inr (projr (run afterRejection (snd oneWatch)))
   \<and> callsOf 10 (projr (run afterRejection (snd oneWatch))) = [(10, ArgRecords [])]"
proof -
  have u: "unused [] 10 initial" by (simp add: unused_def initial_def)
  have n: "permitted [fst (getRecords_logged 0 initial)] 10 afterRejection"
    by (simp add: afterRejection_def permitted_def getRecords_logged_def initial_def Let_def)
  have r: "run afterRejection (snd (watchRecords 0 10 11 12 initial))
       = Inr (projr (run afterRejection (snd oneWatch)))"
    using run_afterRejection by (simp add: oneWatch_def)
  have c: "callsOf 10 initial = []" by (simp add: callsOf_def initial_def)
  from rejection_delivers_empty_batch [where s = initial and type = 0 and recordsAdded = 10
        and recordsUpdated = 11 and recordsRemoved = 12 and later = afterRejection
        and s' = "projr (run afterRejection (snd oneWatch))" and promise = 1
        and err = "Str ''timeout''"] u n r
  have "callsOf 10 (projr (run afterRejection (snd oneWatch)))
          = callsOf 10 initial @ [(10, ArgRecords [])]"
    by blast
  with u n r c show ?thesis by simp
qed

text \<open>
  C2, as stated, fails: when the consumer releases before the promise resolves and the
  promise then resolves, one call has reached the consumer, the \<^verbatim>\<open>recordsAdded\<close> with
  the empty batch that \<^verbatim>\<open>watchRecords\<close> makes before it returns the release function.
\<close>

theorem release_before_resolution_counterexample:
  "(1, 0) \<in> set (pending (releaseRecords (fst oneWatch) (snd oneWatch)))
   \<and> delivered (releasedThenSettled 0 10 11 12 1 (Values 7) initial) = [(10, ArgRecords [])]
   \<and> delivered (releasedThenSettled 0 10 11 12 1 (Values 7) initial) \<noteq> []"
  by (simp add: releasedThenSettled_def oneWatch_def watchRecords_def getRecords_logged_def
        watchRecordsOn_def Let_def push_def addArrayObserver_def initial_def settle_def
        forEach_def removeArrayObserver_def releaseRecords.simps)

text \<open>
  C2, amended. When the consumer calls the release function before the promise resolves and
  the promise resolves later, the calls that reach the consumer are the one \<^verbatim>\<open>recordsAdded\<close>
  with the empty batch that \<^verbatim>\<open>watchRecords\<close> made before it returned, and nothing after
  it; no record is observed, and neither the release function nor the array observer of the
  subscription is registered any more. In any state, resolving a promise calls no function
  of the consumer and leaves the observers, the array observers and \<^verbatim>\<open>releaseMethods\<close> as
  they are: it only assigns the local variable of \<^verbatim>\<open>getRecords\<close>; there is no flag that the
  release sets. And for ever after: over any run of later events that does not raise, a
  function \<^verbatim>\<open>f\<close> of the consumer that nothing named before the subscription, and that the
  consumer does not pass to \<^verbatim>\<open>watchRecords\<close> again, is called no further once
  \<^verbatim>\<open>watchRecords\<close> has returned.
\<close>

theorem release_before_resolution:
  "delivered (snd (watchRecords type recordsAdded recordsUpdated recordsRemoved s))
     = delivered s @ [(recordsAdded, ArgRecords [])]
   \<and> delivered (releasedThenSettled type recordsAdded recordsUpdated recordsRemoved promise (Values resolved) s)
     = delivered s @ [(recordsAdded, ArgRecords [])]
   \<and> observers (releasedThenSettled type recordsAdded recordsUpdated recordsRemoved promise (Values resolved) s)
     = observers s
   \<and> fst (watchRecords type recordsAdded recordsUpdated recordsRemoved s)
     \<notin> set (releaseMethods
         (releasedThenSettled type recordsAdded recordsUpdated recordsRemoved promise (Values resolved) s))
   \<and> (nextId s, ContentDidChange (Suc (Suc (nextId s))) recordsAdded recordsUpdated recordsRemoved)
     \<notin> set (arrayObservers
         (releasedThenSettled type recordsAdded recordsUpdated recordsRemoved promise (Values resolved) s))
   \<and> delivered (snd (settle promise (Values resolved) s)) = delivered s
   \<and> observers (snd (settle promise (Values resolved) s)) = observers s
   \<and> arrayObservers (snd (settle promise (Values resolved) s)) = arrayObservers s
   \<and> releaseMethods (snd (settle promise (Values resolved) s)) = releaseMethods s
   \<and> (unused [] f s
        \<and> permitted [] f later
        \<and> run later (releaseRecords
              (fst (watchRecords type recordsAdded recordsUpdated recordsRemoved s))
              (snd (watchRecords type recordsAdded recordsUpdated recordsRemoved s))) = Inr s'
       \<longrightarrow> callsOf f s' = callsOf f (snd (watchRecords type recordsAdded recordsUpdated recordsRemoved s))
         \<and> callsOf f s' = callsOf f s @ (if f = recordsAdded then [(recordsAdded, ArgRecords [])] else [])
         \<and> unused [] f s')"
proof -
  let ?W = "watchRecords type recordsAdded recordsUpdated recordsRemoved s"
  let ?R = "releasedThenSettled type recordsAdded recordsUpdated recordsRemoved promise (Values resolved) s"
  obtain w records ob where r: "fst ?W = ReleaseRecords w records ob" by (cases "fst ?W")
  have l: "locals (snd ?W) w = []"
    using r by (simp add: watchRecords_delivered)
  have "releaseRecords (fst ?W) (snd ?W) = (snd ?W)\<lparr>
       observers := filter (\<lambda>ob. \<not> (\<exists>d \<in> set (locals (snd ?W) w). removes d ob))
                      (observers (snd ?W)),
       arrayObservers := removeAll (records, ob) (arrayObservers (snd ?W)),
       releaseMethods := removeAll (fst ?W) (releaseMethods (snd ?W))\<rparr>"
    unfolding r by (rule releaseRecords_eq)
  then have rel: "releaseRecords (fst ?W) (snd ?W) = (snd ?W)\<lparr>
       observers := observers s,
       arrayObservers := removeAll (records, ob) (arrayObservers (snd ?W)),
       releaseMethods := removeAll (fst ?W) (releaseMethods (snd ?W))\<rparr>"
    unfolding l by (simp add: watchRecords_delivered(2))
  have d: "delivered (releaseRecords (fst ?W) (snd ?W)) = delivered (snd ?W)"
    and ob: "observers (releaseRecords (fst ?W) (snd ?W)) = observers s"
    and m: "fst ?W \<notin> set (releaseMethods (releaseRecords (fst ?W) (snd ?W)))"
    and ao: "(records, ob) \<notin> set (arrayObservers (releaseRecords (fst ?W) (snd ?W)))"
    unfolding rel by simp_all
  have ro: "records = nextId s"
      "ob = ContentDidChange (Suc (Suc (nextId s))) recordsAdded recordsUpdated recordsRemoved"
    using r by (auto simp: watchRecords_delivered(4))
  have scenario: "delivered (snd ?W) = delivered s @ [(recordsAdded, ArgRecords [])]
     \<and> delivered ?R = delivered s @ [(recordsAdded, ArgRecords [])]
     \<and> observers ?R = observers s
     \<and> fst ?W \<notin> set (releaseMethods ?R)
     \<and> (nextId s, ContentDidChange (Suc (Suc (nextId s))) recordsAdded recordsUpdated recordsRemoved)
         \<notin> set (arrayObservers ?R)"
    using ao unfolding ro
    by (simp add: releasedThenSettled_def case_prod_unfold settle_inert d ob m
          watchRecords_delivered(1))
  have later: "callsOf f s' = callsOf f (snd ?W)
         \<and> callsOf f s' = callsOf f s @ (if f = recordsAdded then [(recordsAdded, ArgRecords [])] else [])
         \<and> unused [] f s'"
    if u: "unused [] f s" and n: "permitted [] f later"
      and run: "run later (releaseRecords (fst ?W) (snd ?W)) = Inr s'"
  proof -
    have q: "quiet [] f (releaseRecords (fst ?W) (snd ?W)) s'"
      using unused_after_release(1)[OF u] n run by (rule quiet_run)
    have c: "callsOf f (snd ?W) = callsOf f s @ (if f = recordsAdded then [(recordsAdded, ArgRecords [])] else [])"
      by (simp add: callsOf_def watchRecords_delivered(1))
    show ?thesis
      using q unused_after_release(2)[OF u, of type recordsAdded recordsUpdated recordsRemoved] c
      by (simp add: quiet_def)
  qed
  from later have forever:
    "unused [] f s \<and> permitted [] f later
       \<and> run later (releaseRecords (fst ?W) (snd ?W)) = Inr s'
     \<longrightarrow> callsOf f s' = callsOf f (snd ?W)
         \<and> callsOf f s' = callsOf f s @ (if f = recordsAdded then [(recordsAdded, ArgRecords [])] else [])
         \<and> unused [] f s'"
    by blast
  have inert: "delivered (snd (settle promise (Values resolved) s)) = delivered s
     \<and> observers (snd (settle promise (Values resolved) s)) = observers s
     \<and> arrayObservers (snd (settle promise (Values resolved) s)) = arrayObservers s
     \<and> releaseMethods (snd (settle promise (Values resolved) s)) = releaseMethods s"
    by (simp add: settle_inert)
  from scenario inert forever show ?thesis by blast
qed

theorem release_before_resolution_witness:
  "unused [] 10 initial
   \<and> permitted [] 10 laterOn
   \<and> run laterOn (releaseRecords (fst (watchRecords 0 10 11 12 initial))
                      (snd (watchRecords 0 10 11 12 initial)))
       = Inr (projr (run laterOn released))
   \<and> callsOf 10 (projr (run laterOn released)) = [(10, ArgRecords [])]
   \<and> unused [] 10 (projr (run laterOn released))"
proof -
  have u: "unused [] 10 initial" by (simp add: unused_def initial_def)
  have n: "permitted [] 10 laterOn" by (simp add: laterOn_def permitted_def)
  have r: "run laterOn (releaseRecords (fst (watchRecords 0 10 11 12 initial))
                      (snd (watchRecords 0 10 11 12 initial)))
       = Inr (projr (run laterOn released))"
    using run_laterOn by (simp add: released_def oneWatch_def)
  have c: "callsOf 10 initial = []" by (simp add: callsOf_def initial_def)
  from release_before_resolution [where s = initial and type = 0 and recordsAdded = 10
        and recordsUpdated = 11 and recordsRemoved = 12 and f = 10 and later = laterOn
        and s' = "projr (run laterOn released)" and promise = 1 and resolved = 7] u n r
  have "callsOf 10 (projr (run laterOn released))
          = callsOf 10 initial @ (if (10::nat) = 10 then [(10, ArgRecords [])] else [])
        \<and> unused [] 10 (projr (run laterOn released))"
    by blast
  with u n r c show ?thesis by simp
qed

end
